theory Spec2Isabelle
  imports Complex_Main "HOL-Library.Char_ord" "HOL-Library.List_Lexorder"
    "HOL-Library.Sublist" "HOL-Library.Log_Nat"
begin

text \<open>
  The matching engine of the resume analyzer: text normalisation, skill extraction and the
  experience estimator (app/nlp_utils.py, app/skills_data.py), the dispatch of document
  ingestion (app/file_utils.py), and skill matching, the scores and the notes of an
  analysis (app/main.py).  The definitions come first, in the order of the source; the
  properties follow.  The spaCy tokenizer, the scikit-learn vectorizer and the PDF and DOCX
  readers are parameters of the functions that call them.
\<close>

section \<open>Text: Python strings, whitespace, case\<close>

text \<open>
  A Python \<open>str\<close> is modelled as a \<open>string\<close>, one \<open>char\<close> per code point, for the code
  points 0 to 255 (Latin-1).  On these, \<open>sorted\<close> compares as the lexicographic order on
  \<open>char list\<close> does (code point by code point, a proper prefix first).

  \<open>isspace\<close> is the class that both \<open>\s\<close> of \<open>re\<close> (on a \<open>str\<close> pattern) and \<open>str.strip()\<close>
  use: the ASCII controls 0x09 to 0x0D and 0x1C to 0x1F, the space, and in the Latin-1
  range NEL (0x85) and the no-break space (0xA0).
\<close>

definition isspace :: "char \<Rightarrow> bool" where
  "isspace c \<longleftrightarrow> c \<in> set [CHR 0x09, CHR 0x0A, CHR 0x0B, CHR 0x0C, CHR 0x0D,
     CHR 0x1C, CHR 0x1D, CHR 0x1E, CHR 0x1F, CHR 0x20, CHR 0x85, CHR 0xA0]"

text \<open>\<open>str.lower()\<close> on Latin-1: A to Z, and 0xC0 to 0xDE but for the multiplication sign
  0xD7, move up by 32; every other code point stays.\<close>

definition lower_char :: "char \<Rightarrow> char" where
  "lower_char c =
     (let n = (of_char c :: nat)
      in if (65 \<le> n \<and> n \<le> 90) \<or> (192 \<le> n \<and> n \<le> 222 \<and> n \<noteq> 215)
         then char_of (n + 32) else c)"

definition lower :: "string \<Rightarrow> string" where
  "lower s = map lower_char s"

text \<open>\<open>s.replace(a, b)\<close> for one-character \<open>a\<close> and \<open>b\<close>.\<close>

definition replace_char :: "char \<Rightarrow> char \<Rightarrow> string \<Rightarrow> string" where
  "replace_char a b s = map (\<lambda>c. if c = a then b else c) s"

text \<open>\<open>re.sub(r"\s+", " ", s)\<close>: every maximal run of whitespace becomes one space.\<close>

function sub_ws :: "string \<Rightarrow> string" where
  "sub_ws [] = []"
| "sub_ws (c # cs) =
     (if isspace c then CHR '' '' # sub_ws (dropWhile isspace cs) else c # sub_ws cs)"
  by pat_completeness auto
termination
  by (relation "measure length") (auto simp: less_Suc_eq_le length_dropWhile_le)

text \<open>\<open>s.strip()\<close>: whitespace removed at both ends.\<close>

definition strip :: "string \<Rightarrow> string" where
  "strip s = rev (dropWhile isspace (rev (dropWhile isspace s)))"

text \<open>\<open>clean_text\<close> (nlp_utils.py).  Its argument may be \<open>None\<close>, which \<open>not text\<close> treats
  as the empty string is treated.\<close>

fun clean_text :: "string option \<Rightarrow> string" where
  "clean_text None = []"
| "clean_text (Some text) =
     (if text = [] then []
      else strip (sub_ws (replace_char CHR 0x0A CHR '' '' (replace_char CHR 0x0D CHR '' '' text))))"

section \<open>Skill extraction\<close>

text \<open>\<open>sub in s\<close> on strings: \<open>sub\<close> occurs in \<open>s\<close> as a contiguous run.\<close>

fun str_in :: "string \<Rightarrow> string \<Rightarrow> bool" where
  "str_in sub [] \<longleftrightarrow> sub = []"
| "str_in sub (c # cs) \<longleftrightarrow> prefix sub (c # cs) \<or> str_in sub cs"

text \<open>
  \<open>extract_skills\<close> (nlp_utils.py).  The vocabulary \<open>SKILL_SET\<close> (a module-level set) is
  given as the list of its members, and the spaCy pipeline \<open>nlp\<close> as the function from a
  text to the texts of its tokens.  The two loops add to the set \<open>found\<close>; \<open>sorted(found)\<close>
  is the sorted list of that set.
\<close>

definition phrase_found :: "string list \<Rightarrow> string \<Rightarrow> string set" where
  "phrase_found SKILL_SET text_norm = set (filter (\<lambda>skill. str_in skill text_norm) SKILL_SET)"

definition token_found :: "string list \<Rightarrow> string set \<Rightarrow> string set" where
  "token_found SKILL_SET tokens =
     set (filter (\<lambda>skill. \<not> str_in '' '' skill \<and> skill \<in> tokens) SKILL_SET)"

definition extract_skills :: "(string \<Rightarrow> string list) \<Rightarrow> string list \<Rightarrow> string \<Rightarrow> string list" where
  "extract_skills nlp SKILL_SET text =
     (if text = [] then []
      else let text_norm = lower (clean_text (Some text));
               found = phrase_found SKILL_SET text_norm;
               tokens = set (nlp text_norm);
               found = found \<union> token_found SKILL_SET tokens
           in sorted_list_of_set found)"

text \<open>The variant the specification compares with: step 4, the token match, left out.\<close>

definition extract_skills_phrase_only :: "string list \<Rightarrow> string \<Rightarrow> string list" where
  "extract_skills_phrase_only SKILL_SET text =
     (if text = [] then []
      else let text_norm = lower (clean_text (Some text));
               found = phrase_found SKILL_SET text_norm
           in sorted_list_of_set found)"

text \<open>\<open>CORE_SKILLS\<close> and \<open>get_all_skills\<close> (skills_data.py): the set literal as the list of
  its members, and the set comprehension \<open>{skill.lower() for skill in CORE_SKILLS}\<close> as the
  list of its members without repetition.\<close>

definition CORE_SKILLS :: "string list" where
  "CORE_SKILLS =
    [''python'', ''java'', ''c'', ''c++'', ''c#'', ''javascript'',
     ''typescript'', ''go'', ''rust'', ''php'', ''r'', ''sql'',
     ''machine learning'', ''deep learning'', ''nlp'',
     ''data analysis'', ''data analytics'', ''data engineering'',
     ''statistics'', ''eda'', ''computer vision'',
     ''pandas'', ''numpy'', ''scikit-learn'', ''tensorflow'', ''pytorch'',
     ''matplotlib'', ''seaborn'',
     ''mysql'', ''postgresql'', ''mongodb'', ''redis'',
     ''aws'', ''azure'', ''gcp'', ''docker'', ''kubernetes'',
     ''ci/cd'', ''git'', ''github'',
     ''problem solving'', ''teamwork'', ''communication'',
     ''leadership'', ''api development'', ''rest api'']"

definition get_all_skills :: "string list" where
  "get_all_skills = remdups (map lower CORE_SKILLS)"

section \<open>Skill matching\<close>

record SkillsMatch =
  matched_skills :: "string list"
  missing_skills :: "string list"
  extra_resume_skills :: "string list"

text \<open>\<open>compute_skill_match\<close> (main.py).\<close>

definition compute_skill_match :: "string list \<Rightarrow> string list \<Rightarrow> SkillsMatch" where
  "compute_skill_match resume_skills job_skills =
     (let resume_set = set resume_skills;
          job_set = set job_skills;
          matched = sorted_list_of_set (resume_set \<inter> job_set);
          missing = sorted_list_of_set (job_set - resume_set);
          extra = sorted_list_of_set (resume_set - job_set)
      in \<lparr>matched_skills = matched, missing_skills = missing, extra_resume_skills = extra\<rparr>)"

section \<open>Document ingestion: dispatch on the file extension\<close>

text \<open>
  file_utils.py.  What a call raises is a value: \<open>ValueError\<close> with its message, raised
  by \<open>extract_text\<close> itself, or whatever the PDF or DOCX library raised, carried in
  \<open>Library_raised\<close>.  The libraries are parameters: \<open>pdf_pages path\<close> is, for each page of
  the opened PDF in order, the result of \<open>page.extract_text()\<close> (\<open>None\<close> where it has no
  text), and \<open>docx_paragraphs path\<close> is the text of each paragraph of the document.
\<close>

datatype 'e py_error = ValueError string | Library_raised 'e

text \<open>\<open>sep.join(xs)\<close>.\<close>

fun join :: "string \<Rightarrow> string list \<Rightarrow> string" where
  "join sep [] = []"
| "join sep [x] = x"
| "join sep (x # y # ys) = x @ sep @ join sep (y # ys)"

text \<open>\<open>page.extract_text() or ""\<close>: \<open>None\<close> and the empty string both give the empty string.\<close>

definition or_empty :: "string option \<Rightarrow> string" where
  "or_empty page_text = (case page_text of None \<Rightarrow> [] | Some t \<Rightarrow> t)"

definition extract_text_from_pdf ::
  "(string \<Rightarrow> 'e + string option list) \<Rightarrow> string \<Rightarrow> 'e py_error + string" where
  "extract_text_from_pdf pdf_pages file_path =
     (case pdf_pages file_path of
        Inl e \<Rightarrow> Inl (Library_raised e)
      | Inr pages \<Rightarrow> Inr (fold (\<lambda>page text. text @ or_empty page @ [CHR 0x0A]) pages []))"

definition extract_text_from_docx ::
  "(string \<Rightarrow> 'e + string list) \<Rightarrow> string \<Rightarrow> 'e py_error + string" where
  "extract_text_from_docx docx_paragraphs file_path =
     (case docx_paragraphs file_path of
        Inl e \<Rightarrow> Inl (Library_raised e)
      | Inr paragraphs \<Rightarrow> Inr (join [CHR 0x0A] paragraphs))"

definition extract_text ::
  "(string \<Rightarrow> 'e + string option list) \<Rightarrow> (string \<Rightarrow> 'e + string list) \<Rightarrow> string
     \<Rightarrow> 'e py_error + string" where
  "extract_text pdf_pages docx_paragraphs file_path =
     (let path_lower = lower file_path
      in if suffix ''.pdf'' path_lower then extract_text_from_pdf pdf_pages file_path
         else if suffix ''.docx'' path_lower then extract_text_from_docx docx_paragraphs file_path
         else Inl (ValueError ''Unsupported file type. Please upload a PDF or DOCX resume.''))"

section \<open>The experience estimator\<close>

text \<open>
  The regular expressions that \<open>extract_years_of_experience\<close> needs, and how \<open>re\<close> matches
  them.  \<open>ends r s\<close> lists what is left of \<open>s\<close> after each way in which \<open>r\<close> matches at the
  start of \<open>s\<close>, in the order in which the backtracking matcher tries them: an
  alternative from left to right, an optional part and a starred class greedily (the
  longer match first).  The first entry is the match that \<open>re\<close> reports.
\<close>

datatype rx =
    Lit string
  | Class "char \<Rightarrow> bool"
  | Cat rx rx
  | Alt rx rx
  | Opt rx
  | Star "char \<Rightarrow> bool"

fun ends :: "rx \<Rightarrow> string \<Rightarrow> string list" where
  "ends (Lit w) s = (if prefix w s then [drop (length w) s] else [])"
| "ends (Class P) s = (case s of [] \<Rightarrow> [] | c # cs \<Rightarrow> if P c then [cs] else [])"
| "ends (Cat a b) s = concat (map (ends b) (ends a s))"
| "ends (Alt a b) s = ends a s @ ends b s"
| "ends (Opt a) s = ends a s @ [s]"
| "ends (Star P) s = map (\<lambda>k. drop k s) (rev [0..<Suc (length (takeWhile P s))])"

text \<open>
  A pattern that starts with its group 1, as \<open>(g)r\<close>: the match at the start of \<open>s\<close>, if any,
  as the text of group 1 and the length of the whole match.
\<close>

definition match_at :: "rx \<Rightarrow> rx \<Rightarrow> string \<Rightarrow> (string \<times> nat) option" where
  "match_at g r s =
     (case concat (map (\<lambda>s1. map (\<lambda>s2. (s1, s2)) (ends r s1)) (ends g s)) of
        [] \<Rightarrow> None
      | (s1, s2) # _ \<Rightarrow> Some (take (length s - length s1) s, length s - length s2))"

text \<open>
  \<open>re.findall\<close>, for the text of group 1: the scan goes from left to right, tries a match at
  each position and, after a match, goes on where it ended.  \<open>skip\<close> counts the characters
  of the last match that are still to pass.
\<close>

fun findall_from :: "rx \<Rightarrow> rx \<Rightarrow> nat \<Rightarrow> string \<Rightarrow> string list" where
  "findall_from g r skip [] = []"
| "findall_from g r skip (c # cs) =
     (if 0 < skip then findall_from g r (skip - 1) cs
      else case match_at g r (c # cs) of
             Some (grp, n) \<Rightarrow> grp # findall_from g r (n - 1) cs
           | None \<Rightarrow> findall_from g r 0 cs)"

definition findall :: "rx \<Rightarrow> rx \<Rightarrow> string \<Rightarrow> string list" where
  "findall g r s = findall_from g r 0 s"

text \<open>\<open>\d\<close> on Latin-1 (the decimal digits 0 to 9) and \<open>int\<close> of a string of digits.\<close>

definition isdigit :: "char \<Rightarrow> bool" where
  "isdigit c \<longleftrightarrow> CHR ''0'' \<le> c \<and> c \<le> CHR ''9''"

definition int_of_digits :: "string \<Rightarrow> int" where
  "int_of_digits ds = foldl (\<lambda>n c. 10 * n + (of_char c - 48)) 0 ds"

text \<open>The pattern \<open>(\d{1,2})\s*\+?\s*(years|year|yrs)\<close>: group 1, and what follows it.\<close>

definition years_group :: rx where
  "years_group = Cat (Class isdigit) (Opt (Class isdigit))"

definition years_words :: rx where
  "years_words = Alt (Lit ''years'') (Alt (Lit ''year'') (Lit ''yrs''))"

definition years_rest :: rx where
  "years_rest = Cat (Star isspace) (Cat (Opt (Lit ''+'')) (Cat (Star isspace) years_words))"

text \<open>\<open>extract_years_of_experience\<close> (nlp_utils.py); \<open>None\<close> is Python's \<open>None\<close>.\<close>

definition extract_years_of_experience :: "string \<Rightarrow> int option" where
  "extract_years_of_experience text =
     (if text = [] then None
      else let text_norm = lower (clean_text (Some text));
               matches = findall years_group years_rest text_norm
           in if matches = [] then None
              else Some (Max (set (map int_of_digits matches))))"

text \<open>
  The pattern as the specification words it: one or two decimal digits, optionally a
  literal "+", optional whitespace, one of the three words.
\<close>

definition spec_years_rest :: rx where
  "spec_years_rest = Cat (Opt (Lit ''+'')) (Cat (Star isspace) years_words)"

text \<open>The strings that a regular expression matches as a whole.\<close>

fun lang :: "rx \<Rightarrow> string set" where
  "lang (Lit w) = {w}"
| "lang (Class P) = {[c] | c. P c}"
| "lang (Cat a b) = {u @ v | u v. u \<in> lang a \<and> v \<in> lang b}"
| "lang (Alt a b) = lang a \<union> lang b"
| "lang (Opt a) = insert [] (lang a)"
| "lang (Star P) = {w. \<forall>c\<in>set w. P c}"

section \<open>Python floats\<close>

text \<open>
  A Python \<open>float\<close> is an IEEE 754 binary64 number.  A finite one is modelled as the
  rational number it stands for, and an operation as the exact operation followed by the
  rounding \<open>fl\<close> to the nearest binary64 number, ties to the even significand.  Infinities
  and NaN are left out: no operation below leaves the finite range on the values the
  analysis works with (percentages and scores up to 100).

  \<open>rhe\<close> rounds a rational to the nearest integer, a tie to the even one.
\<close>

definition rhe :: "rat \<Rightarrow> int" where
  "rhe x =
     (let f = \<lfloor>x\<rfloor>; d = x - of_int f
      in if d < 1 / 2 then f else if 1 / 2 < d then f + 1 else if even f then f else f + 1)"

text \<open>\<open>ilog2 x\<close> is the binary exponent of \<open>x \<noteq> 0\<close>: the \<open>e\<close> with \<open>2^e \<le> |x| < 2^(e+1)\<close>.\<close>

definition ilog2 :: "rat \<Rightarrow> int" where
  "ilog2 x =
     (let (p, q) = quotient_of \<bar>x\<bar>; d = bitlen p - bitlen q
      in if 2 powi d \<le> \<bar>x\<bar> then d else d - 1)"

text \<open>Rounding to binary64: 53 significant bits, from the exponent -1022 on (below it the
  subnormal numbers, with the fixed spacing \<open>2^-1074\<close>).\<close>

definition fl :: "rat \<Rightarrow> rat" where
  "fl x =
     (if x = 0 then 0
      else let e = max (ilog2 x) (- 1022); u = 2 powi (e - 52)
           in of_int (rhe (x / u)) * u)"

definition fadd :: "rat \<Rightarrow> rat \<Rightarrow> rat" where
  "fadd a b = fl (a + b)"

definition fmul :: "rat \<Rightarrow> rat \<Rightarrow> rat" where
  "fmul a b = fl (a * b)"

text \<open>Division; the divisor is not zero wherever the code below divides.\<close>

definition fdiv :: "rat \<Rightarrow> rat \<Rightarrow> rat" where
  "fdiv a b = fl (a / b)"

text \<open>An \<open>int\<close> that meets a \<open>float\<close> in an operation is converted, correctly rounded.\<close>

definition float_of_nat :: "nat \<Rightarrow> rat" where
  "float_of_nat n = fl (of_nat n)"

text \<open>
  \<open>round(x, ndigits)\<close> on a float, for \<open>ndigits \<ge> 0\<close>: the exact value of \<open>x\<close> is rounded to
  \<open>ndigits\<close> decimal places, a tie to the even digit, and that decimal is converted back
  to the nearest float.
\<close>

definition py_round :: "rat \<Rightarrow> nat \<Rightarrow> rat" where
  "py_round x ndigits = fl (of_int (rhe (x * 10 ^ ndigits)) / 10 ^ ndigits)"

section \<open>Scores and the analysis\<close>

text \<open>\<open>combine_scores\<close> (main.py).  The literals \<open>0.6\<close> and \<open>0.4\<close> are the floats nearest
  to 6/10 and 4/10.\<close>

definition combine_scores :: "rat \<Rightarrow> rat \<Rightarrow> rat" where
  "combine_scores text_sim skill_match_pct =
     (let skill_norm = fdiv skill_match_pct 100;
          combined = fadd (fmul (fl (6 / 10)) skill_norm) (fmul (fl (4 / 10)) text_sim)
      in py_round (fmul combined 100) 2)"

text \<open>The formula as the specification writes it,
  \<open>round(100 * (0.6 * skill_match_pct/100 + 0.4 * text_similarity), 2)\<close>, on floats.\<close>

definition combine_spec :: "rat \<Rightarrow> rat \<Rightarrow> rat" where
  "combine_spec text_similarity skill_match_pct =
     py_round (fmul 100 (fadd (fdiv (fmul (fl (6 / 10)) skill_match_pct) 100)
                              (fmul (fl (4 / 10)) text_similarity))) 2"

text \<open>
  \<open>compute_text_similarity\<close> (main.py).  The TF-IDF vectorizer and the cosine similarity of
  scikit-learn are one parameter, \<open>tfidf_cosine\<close>: from the two cleaned texts to the float
  \<open>sim\<close>.
\<close>

definition compute_text_similarity :: "(string \<Rightarrow> string \<Rightarrow> rat) \<Rightarrow> string \<Rightarrow> string \<Rightarrow> rat" where
  "compute_text_similarity tfidf_cosine resume_text job_text =
     (let resume_clean = clean_text (Some resume_text);
          job_clean = clean_text (Some job_text)
      in if resume_clean = [] \<or> job_clean = [] then 0
         else tfidf_cosine resume_clean job_clean)"

text \<open>The profiles (nlp_utils.py): the dictionaries with their fixed keys, as records.\<close>

record ResumeProfile =
  skills :: "string list"
  years_of_experience :: "int option"

record JobProfile =
  required_skills :: "string list"

definition build_resume_profile ::
  "(string \<Rightarrow> string list) \<Rightarrow> string list \<Rightarrow> string \<Rightarrow> ResumeProfile" where
  "build_resume_profile nlp SKILL_SET text =
     \<lparr>skills = extract_skills nlp SKILL_SET text,
      years_of_experience = extract_years_of_experience text\<rparr>"

definition build_job_profile ::
  "(string \<Rightarrow> string list) \<Rightarrow> string list \<Rightarrow> string \<Rightarrow> JobProfile" where
  "build_job_profile nlp SKILL_SET text = \<lparr>required_skills = extract_skills nlp SKILL_SET text\<rparr>"

text \<open>\<open>AnalyzeResponse\<close> (main.py); its field \<open>notes\<close> is \<open>notes'\<close> here.\<close>

record AnalyzeResponse =
  overall_match_score :: rat
  skill_match_percentage :: rat
  text_similarity_score :: rat
  resume_profile :: ResumeProfile
  job_profile :: JobProfile
  skills_match :: SkillsMatch
  notes' :: "string option"

text \<open>The skill match percentage of \<open>run_analysis\<close> (its lines 119 to 124), which the
  specification names \<open>skill_match_pct\<close>.\<close>

definition skill_match_pct :: "string list \<Rightarrow> string list \<Rightarrow> rat" where
  "skill_match_pct matched job_skills =
     (if job_skills \<noteq> []
      then py_round (fdiv (fmul 100 (float_of_nat (length matched)))
                         (float_of_nat (length job_skills))) 2
      else 0)"

text \<open>The notes of \<open>run_analysis\<close> (its lines 133 to 154).\<close>

definition analysis_notes :: "string list \<Rightarrow> rat \<Rightarrow> string option" where
  "analysis_notes missing overall_score =
     (let notes_parts = [];
          notes_parts =
            (if missing \<noteq> []
             then notes_parts @
                  [''Consider learning or explicitly mentioning these skills: ''
                   @ join '', '' missing @ ''.'']
             else notes_parts);
          notes_parts =
            (if overall_score < 50
             then notes_parts @
                  [''Overall match is low. You may need to tailor your resume more closely to this role.'']
             else if overall_score < 75
             then notes_parts @
                  [''Decent match. Highlight key relevant projects and skills to strengthen your application.'']
             else notes_parts @
                  [''Strong match. Ensure your achievements are quantified and clearly described.''])
      in if notes_parts \<noteq> [] then Some (join '' '' notes_parts) else None)"

text \<open>\<open>run_analysis\<close> (main.py), with the tokenizer, the vocabulary and the vectorizer as
  parameters.\<close>

definition run_analysis ::
  "(string \<Rightarrow> string list) \<Rightarrow> string list \<Rightarrow> (string \<Rightarrow> string \<Rightarrow> rat)
     \<Rightarrow> string \<Rightarrow> string \<Rightarrow> AnalyzeResponse" where
  "run_analysis nlp SKILL_SET tfidf_cosine resume_text job_description_text =
     (let resume_profile = build_resume_profile nlp SKILL_SET resume_text;
          job_profile = build_job_profile nlp SKILL_SET job_description_text;
          resume_skills = skills resume_profile;
          job_skills = required_skills job_profile;
          skills_match = compute_skill_match resume_skills job_skills;
          skill_match_pct = skill_match_pct (matched_skills skills_match) job_skills;
          text_sim = compute_text_similarity tfidf_cosine resume_text job_description_text;
          overall_score = combine_scores text_sim skill_match_pct;
          notes = analysis_notes (missing_skills skills_match) overall_score
      in \<lparr>overall_match_score = overall_score,
          skill_match_percentage = skill_match_pct,
          text_similarity_score = py_round text_sim 3,
          resume_profile = resume_profile,
          job_profile = job_profile,
          skills_match = skills_match,
          notes' = notes\<rparr>)"

section \<open>Normalisation: the shape of the output of \<open>clean_text\<close>\<close>

lemma isspace_simps:
  "isspace CHR 0x0A" "isspace CHR 0x0D" "isspace CHR '' ''"
  by (simp_all add: isspace_def)

lemma sub_ws_only_space: "c \<in> set (sub_ws s) \<Longrightarrow> isspace c \<Longrightarrow> c = CHR '' ''"
  by (induction s rule: sub_ws.induct) (auto split: if_splits)

lemma sub_ws_no_run: "successively (\<lambda>a b. \<not> (isspace a \<and> isspace b)) (sub_ws s)"
proof (induction s rule: sub_ws.induct)
  case 1
  then show ?case by simp
next
  case (2 c cs)
  show ?case
  proof (cases "isspace c")
    case True
    let ?r = "dropWhile isspace cs"
    show ?thesis
    proof (cases ?r)
      case Nil
      then show ?thesis using True by (simp del: dropWhile_eq_Nil_conv)
    next
      case (Cons d ds)
      then have "\<not> isspace d" by (metis hd_dropWhile list.sel(1) list.distinct(1))
      then show ?thesis using True Cons 2 by (auto simp: successively_Cons)
    qed
  next
    case False
    then show ?thesis using 2 by (cases "sub_ws cs") (auto simp: successively_Cons)
  qed
qed

lemma filter_dropWhile_isspace:
  "filter (\<lambda>c. \<not> isspace c) (dropWhile isspace cs) = filter (\<lambda>c. \<not> isspace c) cs"
  by (induction cs) auto

lemma sub_ws_nonspace: "filter (\<lambda>c. \<not> isspace c) (sub_ws s) = filter (\<lambda>c. \<not> isspace c) s"
proof (induction s rule: sub_ws.induct)
  case 1
  then show ?case by simp
next
  case (2 c cs)
  then show ?case by (simp add: filter_dropWhile_isspace isspace_simps)
qed

lemma sub_ws_id:
  "\<forall>c\<in>set s. isspace c \<longrightarrow> c = CHR '' '' \<Longrightarrow>
   successively (\<lambda>a b. \<not> (isspace a \<and> isspace b)) s \<Longrightarrow> sub_ws s = s"
proof (induction s rule: sub_ws.induct)
  case 1
  then show ?case by simp
next
  case (2 c cs)
  then show ?case by (cases cs) (auto simp: successively_Cons)
qed

lemma no_run_dropWhile:
  "successively (\<lambda>a b. \<not> (isspace a \<and> isspace b)) s \<Longrightarrow>
   successively (\<lambda>a b. \<not> (isspace a \<and> isspace b)) (dropWhile P s)"
  by (induction s) (auto simp: successively_Cons split: if_splits)

lemma no_run_rev:
  "successively (\<lambda>a b. \<not> (isspace a \<and> isspace b)) (rev s) =
   successively (\<lambda>a b. \<not> (isspace a \<and> isspace b)) s"
proof -
  have "(\<lambda>x y. \<not> (isspace y \<and> isspace x)) = (\<lambda>a b. \<not> (isspace a \<and> isspace b))"
    by (auto simp: fun_eq_iff)
  then show ?thesis by (simp only: successively_rev)
qed

lemma no_run_strip:
  "successively (\<lambda>a b. \<not> (isspace a \<and> isspace b)) s \<Longrightarrow>
   successively (\<lambda>a b. \<not> (isspace a \<and> isspace b)) (strip s)"
  unfolding strip_def by (simp only: no_run_rev no_run_dropWhile)

lemma set_strip: "set (strip s) \<subseteq> set s"
proof
  fix c assume "c \<in> set (strip s)"
  then have "c \<in> set (dropWhile isspace (rev (dropWhile isspace s)))"
    by (simp add: strip_def)
  then have "c \<in> set (rev (dropWhile isspace s))" by (rule set_dropWhileD)
  then have "c \<in> set (dropWhile isspace s)" by simp
  then show "c \<in> set s" by (rule set_dropWhileD)
qed

lemma last_dropWhile: "dropWhile P xs \<noteq> [] \<Longrightarrow> last (dropWhile P xs) = last xs"
  by (induction xs) (auto split: if_splits)

lemma strip_ends:
  assumes "strip s \<noteq> []"
  shows "\<not> isspace (hd (strip s)) \<and> \<not> isspace (last (strip s))"
proof -
  let ?t = "dropWhile isspace s"
  let ?u = "dropWhile isspace (rev ?t)"
  have u: "?u \<noteq> []" using assms by (simp add: strip_def del: dropWhile_eq_Nil_conv)
  then have t: "?t \<noteq> []" by (auto simp del: dropWhile_eq_Nil_conv)
  have "last (strip s) = hd ?u" using u by (simp add: strip_def last_rev del: dropWhile_eq_Nil_conv)
  moreover have "\<not> isspace (hd ?u)" using u by (rule hd_dropWhile)
  moreover have "hd (strip s) = last ?u" using u by (simp add: strip_def hd_rev del: dropWhile_eq_Nil_conv)
  moreover have "last ?u = last (rev ?t)" using u by (rule last_dropWhile)
  moreover have "last (rev ?t) = hd ?t" using t by (simp add: last_rev del: dropWhile_eq_Nil_conv)
  moreover have "\<not> isspace (hd ?t)" using t by (rule hd_dropWhile)
  ultimately show ?thesis by simp
qed

lemma strip_id:
  assumes "s \<noteq> [] \<Longrightarrow> \<not> isspace (hd s) \<and> \<not> isspace (last s)"
  shows "strip s = s"
proof (cases s)
  case Nil
  then show ?thesis by (simp add: strip_def)
next
  case (Cons c cs)
  then have h: "\<not> isspace (hd s)" and l: "\<not> isspace (last s)" using assms by auto
  have "dropWhile isspace s = s" using h Cons by simp
  moreover have "dropWhile isspace (rev s) = rev s"
    using l Cons by (cases "rev s") (auto simp: last_rev hd_rev[symmetric])
  ultimately show ?thesis by (simp add: strip_def)
qed

lemma strip_nonspace: "filter (\<lambda>c. \<not> isspace c) (strip s) = filter (\<lambda>c. \<not> isspace c) s"
proof -
  have "filter (\<lambda>c. \<not> isspace c) (strip s)
      = rev (filter (\<lambda>c. \<not> isspace c) (dropWhile isspace (rev (dropWhile isspace s))))"
    by (simp add: strip_def rev_filter)
  also have "\<dots> = rev (filter (\<lambda>c. \<not> isspace c) (rev (dropWhile isspace s)))"
    by (simp only: filter_dropWhile_isspace)
  also have "\<dots> = filter (\<lambda>c. \<not> isspace c) (dropWhile isspace s)"
    by (simp add: rev_filter)
  finally show ?thesis by (simp only: filter_dropWhile_isspace)
qed

lemma replace_char_nonspace:
  "isspace a \<Longrightarrow> isspace b \<Longrightarrow>
   filter (\<lambda>c. \<not> isspace c) (replace_char a b s) = filter (\<lambda>c. \<not> isspace c) s"
  by (induction s) (auto simp: replace_char_def)

text \<open>The normal form: whitespace is the single space, never doubled, never at an end.\<close>

lemma clean_text_shape:
  "(\<forall>c\<in>set (clean_text x). isspace c \<longrightarrow> c = CHR '' '')
   \<and> successively (\<lambda>a b. \<not> (isspace a \<and> isspace b)) (clean_text x)
   \<and> (clean_text x \<noteq> [] \<longrightarrow> \<not> isspace (hd (clean_text x)) \<and> \<not> isspace (last (clean_text x)))"
proof (cases x)
  case None
  then show ?thesis by simp
next
  case (Some t)
  let ?r = "sub_ws (replace_char CHR 0x0A CHR '' '' (replace_char CHR 0x0D CHR '' '' t))"
  have 1: "\<forall>c\<in>set (strip ?r). isspace c \<longrightarrow> c = CHR '' ''"
    using set_strip [of ?r] sub_ws_only_space by blast
  have 2: "successively (\<lambda>a b. \<not> (isspace a \<and> isspace b)) (strip ?r)"
    by (rule no_run_strip) (rule sub_ws_no_run)
  have 3: "strip ?r \<noteq> [] \<longrightarrow> \<not> isspace (hd (strip ?r)) \<and> \<not> isspace (last (strip ?r))"
    using strip_ends by blast
  show ?thesis
  proof (cases "t = []")
    case True
    then show ?thesis using Some by simp
  next
    case False
    then have "clean_text x = strip ?r" using Some by simp
    then show ?thesis using 1 2 3 by simp
  qed
qed

lemma clean_text_fixed:
  assumes "\<forall>c\<in>set s. isspace c \<longrightarrow> c = CHR '' ''"
    and "successively (\<lambda>a b. \<not> (isspace a \<and> isspace b)) s"
    and "s \<noteq> [] \<longrightarrow> \<not> isspace (hd s) \<and> \<not> isspace (last s)"
  shows "clean_text (Some s) = s"
proof (cases "s = []")
  case True
  then show ?thesis by simp
next
  case False
  have a: "CHR 0x0D \<notin> set s" "CHR 0x0A \<notin> set s"
    using assms(1) isspace_simps by fastforce+
  have "replace_char CHR 0x0D CHR '' '' s = s"
    using a(1) by (induction s) (auto simp: replace_char_def)
  moreover have "replace_char CHR 0x0A CHR '' '' s = s"
    using a(2) by (induction s) (auto simp: replace_char_def)
  moreover have "sub_ws s = s" using assms(1,2) by (rule sub_ws_id)
  moreover have "strip s = s" using assms(3) by (intro strip_id) simp
  ultimately show ?thesis using False by simp
qed

lemma clean_text_nonspace:
  "filter (\<lambda>c. \<not> isspace c) (clean_text (Some t)) = filter (\<lambda>c. \<not> isspace c) t"
  by (cases "t = []")
    (simp_all add: strip_nonspace sub_ws_nonspace replace_char_nonspace isspace_simps)

lemma sub_ws_last:
  "a \<noteq> [] \<Longrightarrow> \<not> isspace (last a) \<Longrightarrow> sub_ws a \<noteq> [] \<and> last (sub_ws a) = last a"
proof (induction a rule: sub_ws.induct)
  case 1
  then show ?case by simp
next
  case (2 c cs)
  show ?case
  proof (cases "isspace c")
    case True
    then have cs: "cs \<noteq> []" using "2.prems" by auto
    have "\<exists>x\<in>set cs. \<not> isspace x" using cs "2.prems" last_in_set [of cs] by auto
    then have d: "dropWhile isspace cs \<noteq> []" by simp
    then have l: "last (dropWhile isspace cs) = last cs" by (rule last_dropWhile)
    have "sub_ws (dropWhile isspace cs) \<noteq> [] \<and>
        last (sub_ws (dropWhile isspace cs)) = last (dropWhile isspace cs)"
      using True d l "2.prems" cs by (intro "2.IH"(1)) simp_all
    then show ?thesis using True l cs by simp
  next
    case False
    show ?thesis
    proof (cases "cs = []")
      case True
      then show ?thesis using False by simp
    next
      case ne: False
      then have "sub_ws cs \<noteq> [] \<and> last (sub_ws cs) = last cs"
        using False "2.prems" by (intro "2.IH"(2)) simp_all
      then show ?thesis using False ne by simp
    qed
  qed
qed

lemma sub_ws_append:
  "a \<noteq> [] \<Longrightarrow> \<not> isspace (last a) \<Longrightarrow> sub_ws (a @ b) = sub_ws a @ sub_ws b"
proof (induction a rule: sub_ws.induct)
  case 1
  then show ?case by simp
next
  case (2 c cs)
  show ?case
  proof (cases "isspace c")
    case True
    then have cs: "cs \<noteq> []" using "2.prems" by auto
    have ex: "\<exists>x\<in>set cs. \<not> isspace x" using cs "2.prems" last_in_set [of cs] by auto
    then have d: "dropWhile isspace cs \<noteq> []" by simp
    then have l: "last (dropWhile isspace cs) = last cs" by (rule last_dropWhile)
    from ex obtain x where "x \<in> set cs" "\<not> isspace x" by blast
    then have da: "dropWhile isspace (cs @ b) = dropWhile isspace cs @ b"
      by (rule dropWhile_append1)
    have "sub_ws (dropWhile isspace cs @ b) = sub_ws (dropWhile isspace cs) @ sub_ws b"
      using True d l "2.prems" cs by (intro "2.IH"(1)) simp_all
    then show ?thesis using True da by simp
  next
    case False
    show ?thesis
    proof (cases "cs = []")
      case True
      then show ?thesis using False by simp
    next
      case ne: False
      then have "sub_ws (cs @ b) = sub_ws cs @ sub_ws b"
        using False "2.prems" by (intro "2.IH"(2)) simp_all
      then show ?thesis using False by simp
    qed
  qed
qed

lemma sub_ws_run:
  assumes "w \<noteq> []" "\<forall>c\<in>set w. isspace c" "b \<noteq> []" "\<not> isspace (hd b)"
  shows "sub_ws (w @ b) = CHR '' '' # sub_ws b"
proof -
  obtain c cs where w: "w = c # cs" using assms(1) by (cases w) auto
  have "dropWhile isspace (cs @ b) = b"
    using assms(2,3,4) w by (cases b) (simp_all add: dropWhile_append2)
  then show ?thesis using w assms(2) by simp
qed

lemma strip_around_space:
  assumes "A \<noteq> []" "\<not> isspace (last A)" "B \<noteq> []" "\<not> isspace (hd B)"
  shows "strip (A @ CHR '' '' # B) = strip A @ CHR '' '' # strip B"
proof -
  have exA: "\<exists>x\<in>set A. \<not> isspace x" using assms(1,2) last_in_set [of A] by auto
  have exB: "\<exists>x\<in>set (rev B). \<not> isspace x" using assms(3,4) hd_in_set [of B] by auto
  from exA obtain x where "x \<in> set A" "\<not> isspace x" by blast
  then have l: "dropWhile isspace (A @ CHR '' '' # B) = dropWhile isspace A @ CHR '' '' # B"
    by (rule dropWhile_append1)
  have dA: "dropWhile isspace A \<noteq> []" using exA by simp
  have "rev (dropWhile isspace A @ CHR '' '' # B) = rev B @ CHR '' '' # rev (dropWhile isspace A)"
    by simp
  moreover from exB obtain y where "y \<in> set (rev B)" "\<not> isspace y" by blast
  then have "dropWhile isspace (rev B @ CHR '' '' # rev (dropWhile isspace A))
      = dropWhile isspace (rev B) @ CHR '' '' # rev (dropWhile isspace A)"
    by (rule dropWhile_append1)
  ultimately have r: "dropWhile isspace (rev (dropWhile isspace A @ CHR '' '' # B))
      = dropWhile isspace (rev B) @ CHR '' '' # rev (dropWhile isspace A)"
    by simp
  have sA: "strip A = dropWhile isspace A"
  proof -
    have "last (dropWhile isspace A) = last A" using dA by (rule last_dropWhile)
    then have "\<not> isspace (hd (rev (dropWhile isspace A)))"
      using dA assms(2) by (simp add: hd_rev)
    then have "dropWhile isspace (rev (dropWhile isspace A)) = rev (dropWhile isspace A)"
      using dA by (cases "rev (dropWhile isspace A)") simp_all
    then show ?thesis by (simp add: strip_def)
  qed
  have sB: "strip B = rev (dropWhile isspace (rev B))"
    using assms(3,4) by (cases B) (simp_all add: strip_def)
  show ?thesis unfolding sA sB unfolding strip_def l r by simp
qed

lemma clean_text_run:
  assumes u: "u \<noteq> []" "\<not> isspace (last u)" and w: "w \<noteq> []" "\<forall>c\<in>set w. isspace c"
    and v: "v \<noteq> []" "\<not> isspace (hd v)"
  shows "clean_text (Some (u @ w @ v)) = clean_text (Some u) @ CHR '' '' # clean_text (Some v)"
proof -
  define f where "f = (\<lambda>t. replace_char CHR 0x0A CHR '' '' (replace_char CHR 0x0D CHR '' '' t))"
  have f_map: "f (a @ b) = f a @ f b" for a b by (simp add: f_def replace_char_def)
  have f_len: "f a = [] \<longleftrightarrow> a = []" for a by (simp add: f_def replace_char_def)
  have f_ns: "\<not> isspace c \<Longrightarrow> (if (if c = CHR 0x0D then CHR '' '' else c) = CHR 0x0A then CHR '' ''
       else (if c = CHR 0x0D then CHR '' '' else c)) = c" for c
    using isspace_simps by auto
  have f_last: "last (f u) = last u" using u f_ns [of "last u"]
    by (simp add: f_def replace_char_def last_map)
  have f_hd: "hd (f v) = hd v" using v f_ns [of "hd v"]
    by (simp add: f_def replace_char_def hd_map)
  have f_w: "\<forall>c\<in>set (f w). isspace c" using w(2) isspace_simps
    by (auto simp: f_def replace_char_def)
  have fu: "f u \<noteq> []" "\<not> isspace (last (f u))" using u f_last by (simp_all add: f_len)
  have fv: "f v \<noteq> []" "\<not> isspace (hd (f v))" using v f_hd by (simp_all add: f_len)
  have fw: "f w \<noteq> []" using w by (simp add: f_len)
  have "sub_ws (f (u @ w @ v)) = sub_ws (f u) @ sub_ws (f w @ f v)"
    unfolding f_map using fu by (rule sub_ws_append)
  also have "sub_ws (f w @ f v) = CHR '' '' # sub_ws (f v)"
    using fw f_w fv by (rule sub_ws_run)
  finally have s: "sub_ws (f (u @ w @ v)) = sub_ws (f u) @ CHR '' '' # sub_ws (f v)" .
  have A: "sub_ws (f u) \<noteq> []" "\<not> isspace (last (sub_ws (f u)))"
    using sub_ws_last [OF fu] fu(2) by simp_all
  have B: "sub_ws (f v) \<noteq> []" "\<not> isspace (hd (sub_ws (f v)))"
    using fv by (cases "f v"; simp)+
  have "strip (sub_ws (f (u @ w @ v))) = strip (sub_ws (f u)) @ CHR '' '' # strip (sub_ws (f v))"
    unfolding s using A B by (rule strip_around_space)
  then show ?thesis using u(1) v(1) by (simp add: f_def)
qed

text \<open>
  C8.  \<open>clean_text\<close> is idempotent.  Its output holds no carriage return and no newline;
  every whitespace character in it is the space; no two whitespace characters are adjacent;
  it neither starts nor ends with whitespace; and the characters that are not whitespace
  are those of the input, in order.  A run of whitespace (tabs, newlines and others,
  mixed) between two characters that are not whitespace becomes exactly one space.  The
  absent input and the empty string normalise to the empty string.
\<close>

theorem clean_text_idempotent_normal_form:
  "clean_text (Some (clean_text x)) = clean_text x
   \<and> CHR 0x0D \<notin> set (clean_text x) \<and> CHR 0x0A \<notin> set (clean_text x)
   \<and> (\<forall>c\<in>set (clean_text x). isspace c \<longrightarrow> c = CHR '' '')
   \<and> (\<forall>i. Suc i < length (clean_text x) \<longrightarrow>
        \<not> (isspace (clean_text x ! i) \<and> isspace (clean_text x ! Suc i)))
   \<and> (clean_text x \<noteq> [] \<longrightarrow> \<not> isspace (hd (clean_text x)) \<and> \<not> isspace (last (clean_text x)))
   \<and> filter (\<lambda>c. \<not> isspace c) (clean_text x)
        = filter (\<lambda>c. \<not> isspace c) (case x of None \<Rightarrow> [] | Some t \<Rightarrow> t)
   \<and> (\<forall>u w v. u \<noteq> [] \<and> \<not> isspace (last u) \<and> w \<noteq> [] \<and> (\<forall>c\<in>set w. isspace c)
          \<and> v \<noteq> [] \<and> \<not> isspace (hd v) \<longrightarrow>
        clean_text (Some (u @ w @ v)) = clean_text (Some u) @ CHR '' '' # clean_text (Some v))
   \<and> clean_text None = [] \<and> clean_text (Some []) = []"
proof -
  note sh = clean_text_shape [of x]
  have idem: "clean_text (Some (clean_text x)) = clean_text x"
    using sh by (intro clean_text_fixed) simp_all
  have cr: "CHR 0x0D \<notin> set (clean_text x)" "CHR 0x0A \<notin> set (clean_text x)"
    using sh isspace_simps by fastforce+
  have run: "\<forall>i. Suc i < length (clean_text x) \<longrightarrow>
        \<not> (isspace (clean_text x ! i) \<and> isspace (clean_text x ! Suc i))"
    using sh by (simp add: successively_conv_nth)
  have ns: "filter (\<lambda>c. \<not> isspace c) (clean_text x)
        = filter (\<lambda>c. \<not> isspace c) (case x of None \<Rightarrow> [] | Some t \<Rightarrow> t)"
  proof (cases x)
    case None
    then show ?thesis by simp
  next
    case (Some t)
    then show ?thesis by (simp only: clean_text_nonspace option.case)
  qed
  have one: "\<forall>u w v. u \<noteq> [] \<and> \<not> isspace (last u) \<and> w \<noteq> [] \<and> (\<forall>c\<in>set w. isspace c)
          \<and> v \<noteq> [] \<and> \<not> isspace (hd v) \<longrightarrow>
        clean_text (Some (u @ w @ v)) = clean_text (Some u) @ CHR '' '' # clean_text (Some v)"
    using clean_text_run by blast
  have e: "clean_text None = []" "clean_text (Some []) = []" by simp_all
  have s1: "\<forall>c\<in>set (clean_text x). isspace c \<longrightarrow> c = CHR '' ''"
    and s3: "clean_text x \<noteq> [] \<longrightarrow>
      \<not> isspace (hd (clean_text x)) \<and> \<not> isspace (last (clean_text x))"
    using sh by blast+
  show ?thesis by (intro conjI idem cr s1 run s3 ns one e)
qed

theorem clean_text_idempotent_normal_form_witness:
  "clean_text (Some [CHR '' '', CHR 0x09, CHR ''a'', CHR 0x09, CHR 0x0A, CHR '' '', CHR ''b'',
      CHR 0x0D, CHR 0x0A, CHR ''c'', CHR 0xA0, CHR 0x0A]) = ''a b c''
   \<and> clean_text (Some ''a b c'') = ''a b c''
   \<and> hd ''a b c'' = CHR ''a'' \<and> last ''a b c'' = CHR ''c''"
proof -
  let ?x = "Some [CHR '' '', CHR 0x09, CHR ''a'', CHR 0x09, CHR 0x0A, CHR '' '', CHR ''b'',
      CHR 0x0D, CHR 0x0A, CHR ''c'', CHR 0xA0, CHR 0x0A]"
  have e: "clean_text ?x = ''a b c''"
    by (simp add: isspace_def replace_char_def strip_def)
  show ?thesis
    using clean_text_idempotent_normal_form [of ?x] unfolding e by simp
qed

section \<open>Float rounding: order and error\<close>

text \<open>What the proofs below need of \<open>fl\<close>: it keeps the order of the non-negative
  numbers and it errs by at most half a unit in the last place.\<close>

lemma two_powi_pos [simp]: "0 < (2::rat) powi e"
  by (simp add: zero_less_power_int)

lemma two_powi_not_le0 [simp]: "\<not> (2::rat) powi e \<le> 0"
  using two_powi_pos [of e] by linarith

lemma rhe_err: "\<bar>of_int (rhe x) - x\<bar> \<le> 1 / 2"
proof -
  have "of_int \<lfloor>x\<rfloor> \<le> x" "x < of_int \<lfloor>x\<rfloor> + 1" by linarith+
  then show ?thesis by (auto simp: rhe_def Let_def)
qed

lemma rhe_of_int [simp]: "rhe (of_int n) = n"
  by (simp add: rhe_def)

lemma rhe_mono: "x \<le> y \<Longrightarrow> rhe x \<le> rhe y"
proof -
  assume xy: "x \<le> y"
  then have f: "\<lfloor>x\<rfloor> \<le> \<lfloor>y\<rfloor>" by (rule floor_mono)
  show ?thesis
  proof (cases "\<lfloor>x\<rfloor> = \<lfloor>y\<rfloor>")
    case True
    then have "x - of_int \<lfloor>x\<rfloor> \<le> y - of_int \<lfloor>y\<rfloor>" using xy by simp
    then show ?thesis using True by (auto simp: rhe_def Let_def)
  next
    case False
    then have "\<lfloor>x\<rfloor> + 1 \<le> \<lfloor>y\<rfloor>" using f by simp
    moreover have "rhe x \<le> \<lfloor>x\<rfloor> + 1" "\<lfloor>y\<rfloor> \<le> rhe y"
      by (simp_all add: rhe_def Let_def)
    ultimately show ?thesis by linarith
  qed
qed

lemma bitlen_powi:
  assumes "0 < p"
  shows "2 powi (bitlen p - 1) \<le> (of_int p :: rat)" "(of_int p :: rat) < 2 powi (bitlen p)"
proof -
  have b: "0 \<le> bitlen p - 1" using assms by (simp add: bitlen_alt_def)
  have "2 ^ nat (bitlen p - 1) \<le> p" "p < 2 ^ nat (bitlen p)"
    using bitlen_bounds [OF assms] by simp_all
  then have "(of_int (2 ^ nat (bitlen p - 1)) :: rat) \<le> of_int p"
    "(of_int p :: rat) < of_int (2 ^ nat (bitlen p))"
    by (simp_all only: of_int_le_iff of_int_less_iff)
  then show "2 powi (bitlen p - 1) \<le> (of_int p :: rat)" "(of_int p :: rat) < 2 powi (bitlen p)"
    using b by (simp_all add: power_int_nonneg_exp)
qed

lemma ilog2_bounds:
  assumes "x \<noteq> 0"
  shows "2 powi (ilog2 x) \<le> \<bar>x\<bar>" "\<bar>x\<bar> < 2 powi (ilog2 x + 1)"
proof -
  obtain p q where pq: "quotient_of \<bar>x\<bar> = (p, q)" by (cases "quotient_of \<bar>x\<bar>")
  then have q: "0 < q" and x: "\<bar>x\<bar> = of_int p / of_int q"
    by (auto dest: quotient_of_denom_pos quotient_of_div)
  have p: "0 < p"
  proof -
    have "0 < \<bar>x\<bar>" using assms by simp
    then have "0 < (of_int p :: rat) / of_int q" using x by simp
    then show ?thesis using q by (simp add: zero_less_divide_iff)
  qed
  let ?d = "bitlen p - bitlen q"
  note bp = bitlen_powi [OF p] and bq = bitlen_powi [OF q]
  have Q: "0 < (of_int q :: rat)" using q by simp
  have up: "\<bar>x\<bar> < 2 powi (?d + 1)"
  proof -
    have "\<bar>x\<bar> < 2 powi (bitlen p) / of_int q"
      unfolding x using bp(2) Q by (simp add: divide_strict_right_mono)
    also have "\<dots> \<le> 2 powi (bitlen p) / 2 powi (bitlen q - 1)"
      using bq(1) Q by (intro divide_left_mono) simp_all
    also have "\<dots> = 2 powi (bitlen p - (bitlen q - 1))"
      by (simp add: power_int_diff)
    finally show ?thesis by (simp add: algebra_simps)
  qed
  have lo: "2 powi (?d - 1) \<le> \<bar>x\<bar>"
  proof -
    have "2 powi (?d - 1) = 2 powi (bitlen p - 1 - bitlen q)" by (simp add: algebra_simps)
    also have "\<dots> = 2 powi (bitlen p - 1) / (2 powi (bitlen q) :: rat)"
      by (simp add: power_int_diff)
    also have "\<dots> \<le> of_int p / 2 powi (bitlen q)"
      using bp(1) by (intro divide_right_mono) simp_all
    also have "\<dots> \<le> of_int p / of_int q"
      using bq(2) Q p by (intro divide_left_mono) simp_all
    finally show ?thesis using x by simp
  qed
  have il: "ilog2 x = (if 2 powi ?d \<le> \<bar>x\<bar> then ?d else ?d - 1)"
    by (simp add: ilog2_def pq Let_def)
  show "2 powi (ilog2 x) \<le> \<bar>x\<bar>" using lo il by auto
  show "\<bar>x\<bar> < 2 powi (ilog2 x + 1)" using up il by auto
qed

lemma ilog2_mono:
  assumes "0 < x" "x \<le> y"
  shows "ilog2 x \<le> ilog2 y"
proof (rule ccontr)
  assume "\<not> ilog2 x \<le> ilog2 y"
  then have "ilog2 y + 1 \<le> ilog2 x" by simp
  then have "(2::rat) powi (ilog2 y + 1) \<le> 2 powi (ilog2 x)"
    by (intro power_int_increasing) simp_all
  moreover have "2 powi (ilog2 x) \<le> \<bar>x\<bar>" using assms ilog2_bounds(1) [of x] by simp
  moreover have "\<bar>y\<bar> < 2 powi (ilog2 y + 1)" using assms ilog2_bounds(2) [of y] by simp
  ultimately show False using assms by linarith
qed


lemma fl_unfold:
  "x \<noteq> 0 \<Longrightarrow>
   fl x = of_int (rhe (x / 2 powi (max (ilog2 x) (- 1022) - 52))) * 2 powi (max (ilog2 x) (- 1022) - 52)"
  by (simp add: fl_def Let_def)

lemma fl_zero [simp]: "fl 0 = 0"
  by (simp add: fl_def)

lemma scaled_rhe_le:
  assumes "0 < u" "x \<le> of_int n * u"
  shows "of_int (rhe (x / u)) * u \<le> of_int n * u"
proof -
  have "x / u \<le> of_int n" using assms by (simp add: pos_divide_le_eq)
  then have "rhe (x / u) \<le> rhe (of_int n)" by (rule rhe_mono)
  then have "(of_int (rhe (x / u)) :: rat) \<le> of_int n" by simp
  then show ?thesis using assms(1) by (simp add: mult_right_mono)
qed

lemma scaled_rhe_ge:
  assumes "0 < u" "of_int n * u \<le> x"
  shows "of_int n * u \<le> of_int (rhe (x / u)) * u"
proof -
  have "of_int n \<le> x / u" using assms by (simp add: pos_le_divide_eq)
  then have "rhe (of_int n) \<le> rhe (x / u)" by (rule rhe_mono)
  then have "(of_int n :: rat) \<le> of_int (rhe (x / u))" by simp
  then show ?thesis using assms(1) by (simp add: mult_right_mono)
qed

lemma fl_nonneg: "0 \<le> x \<Longrightarrow> 0 \<le> fl x"
proof (cases "x = 0")
  case True
  then show ?thesis by simp
next
  case False
  assume "0 \<le> x"
  then have "of_int 0 * 2 powi (max (ilog2 x) (- 1022) - 52) \<le> x" by simp
  from scaled_rhe_ge [OF two_powi_pos this] show ?thesis
    unfolding fl_unfold [OF False] by simp
qed

lemma two_powi_split: "(2::rat) powi (a + b) = 2 powi a * 2 powi b"
  by (simp add: power_int_add)

lemma two_powi_53: "(2::rat) powi (e + 1) = of_int (2 ^ 53) * 2 powi (e - 52)"
proof -
  have "e + 1 = 53 + (e - 52)" by simp
  then have "(2::rat) powi (e + 1) = 2 powi (53 + (e - 52))" by (rule arg_cong)
  also have "\<dots> = 2 powi 53 * 2 powi (e - 52)" by (rule two_powi_split)
  finally show ?thesis by simp
qed

lemma two_powi_52: "(2::rat) powi e = of_int (2 ^ 52) * 2 powi (e - 52)"
proof -
  have "(2::rat) powi e = 2 powi (52 + (e - 52))" by simp
  also have "\<dots> = 2 powi 52 * 2 powi (e - 52)" by (rule two_powi_split)
  finally show ?thesis by simp
qed

text \<open>Rounding never leaves the binade: it stays between the two powers of two around.\<close>

lemma fl_binade:
  assumes "0 < x"
  shows "fl x \<le> 2 powi (max (ilog2 x) (- 1022) + 1)"
    and "- 1022 \<le> ilog2 x \<Longrightarrow> 2 powi (ilog2 x) \<le> fl x"
proof -
  let ?e = "max (ilog2 x) (- 1022)"
  have x0: "x \<noteq> 0" using assms by simp
  have "x < 2 powi (ilog2 x + 1)" using ilog2_bounds(2) [OF x0] assms by simp
  also have "\<dots> \<le> 2 powi (?e + 1)" by (intro power_int_increasing) simp_all
  finally have "x \<le> of_int (2 ^ 53) * 2 powi (?e - 52)"
    unfolding two_powi_53 by simp
  from scaled_rhe_le [OF two_powi_pos this]
  show "fl x \<le> 2 powi (?e + 1)"
    unfolding fl_unfold [OF x0] two_powi_53 .
  assume n: "- 1022 \<le> ilog2 x"
  then have e: "?e = ilog2 x" by simp
  have "2 powi (ilog2 x) \<le> x" using ilog2_bounds(1) [OF x0] assms by simp
  then have "of_int (2 ^ 52) * 2 powi (ilog2 x - 52) \<le> x"
    unfolding two_powi_52 [symmetric] .
  from scaled_rhe_ge [OF two_powi_pos this]
  show "2 powi (ilog2 x) \<le> fl x"
    unfolding fl_unfold [OF x0] e two_powi_52 [of "ilog2 x"] .
qed

lemma fl_mono:
  assumes "0 \<le> x" "x \<le> y"
  shows "fl x \<le> fl y"
proof (cases "x = 0")
  case True
  then show ?thesis using assms fl_nonneg [of y] by simp
next
  case False
  then have x: "0 < x" and y: "0 < y" using assms by simp_all
  let ?ex = "max (ilog2 x) (- 1022)" and ?ey = "max (ilog2 y) (- 1022)"
  have le: "?ex \<le> ?ey" using ilog2_mono [OF x assms(2)] by simp
  show ?thesis
  proof (cases "?ex = ?ey")
    case True
    have "x / 2 powi (?ey - 52) \<le> y / 2 powi (?ey - 52)"
      using assms(2) by (simp add: divide_right_mono)
    then have "rhe (x / 2 powi (?ey - 52)) \<le> rhe (y / 2 powi (?ey - 52))" by (rule rhe_mono)
    then have "of_int (rhe (x / 2 powi (?ey - 52))) * 2 powi (?ey - 52)
        \<le> of_int (rhe (y / 2 powi (?ey - 52))) * (2::rat) powi (?ey - 52)"
      by (simp add: mult_right_mono)
    then show ?thesis
      using x y True by (simp only: fl_unfold [of x] fl_unfold [of y])
  next
    case False
    then have lt: "?ex + 1 \<le> ?ey" using le by simp
    then have ey: "- 1022 \<le> ilog2 y" "?ey = ilog2 y" by simp_all
    have "fl x \<le> 2 powi (?ex + 1)" by (rule fl_binade(1) [OF x])
    also have "\<dots> \<le> 2 powi ?ey" using lt by (intro power_int_increasing) simp_all
    also have "\<dots> \<le> fl y" unfolding ey(2) by (rule fl_binade(2) [OF y ey(1)])
    finally show ?thesis .
  qed
qed

lemma fl_err:
  assumes "x \<noteq> 0"
  shows "\<bar>fl x - x\<bar> \<le> 2 powi (max (ilog2 x) (- 1022) - 53)"
proof -
  let ?u = "(2::rat) powi (max (ilog2 x) (- 1022) - 52)"
  have "fl x - x = (of_int (rhe (x / ?u)) - x / ?u) * ?u"
    unfolding fl_unfold [OF assms] by (simp add: algebra_simps)
  then have "\<bar>fl x - x\<bar> = \<bar>of_int (rhe (x / ?u)) - x / ?u\<bar> * ?u"
    by (simp add: abs_mult)
  also have "\<dots> \<le> 1 / 2 * ?u"
    using rhe_err [of "x / ?u"] by (intro mult_right_mono) simp_all
  also have "\<dots> = 2 powi (max (ilog2 x) (- 1022) - 53)"
  proof -
    have "(2::rat) powi (max (ilog2 x) (- 1022) - 52) = 2 powi (1 + (max (ilog2 x) (- 1022) - 53))"
      by simp
    also have "\<dots> = 2 * 2 powi (max (ilog2 x) (- 1022) - 53)"
      unfolding two_powi_split by simp
    finally show ?thesis by simp
  qed
  finally show ?thesis .
qed

lemma fl_rel_err:
  assumes "2 powi (- 1022) \<le> \<bar>x\<bar>"
  shows "\<bar>fl x - x\<bar> \<le> \<bar>x\<bar> * 2 powi (- 53)"
proof -
  have x0: "x \<noteq> 0" using assms by auto
  have e: "- 1022 \<le> ilog2 x"
  proof (rule ccontr)
    assume "\<not> - 1022 \<le> ilog2 x"
    then have "ilog2 x + 1 \<le> - 1022" by simp
    then have "(2::rat) powi (ilog2 x + 1) \<le> 2 powi (- 1022)"
      by (intro power_int_increasing) simp_all
    then show False using ilog2_bounds(2) [OF x0] assms by linarith
  qed
  have "\<bar>fl x - x\<bar> \<le> 2 powi (ilog2 x + - 53)"
    using fl_err [OF x0] e by (simp add: max_def)
  also have "\<dots> = 2 powi (ilog2 x) * 2 powi (- 53)" by (rule two_powi_split)
  also have "\<dots> \<le> \<bar>x\<bar> * 2 powi (- 53)"
    using ilog2_bounds(1) [OF x0] by (intro mult_right_mono) simp_all
  finally show ?thesis .
qed

section \<open>Scores: ranges\<close>

lemma rhe_nonneg: "0 \<le> x \<Longrightarrow> 0 \<le> rhe x"
  using rhe_mono [of 0 x] rhe_of_int [of 0] by simp

lemma py_round_nonneg: "0 \<le> x \<Longrightarrow> 0 \<le> py_round x d"
  unfolding py_round_def by (intro fl_nonneg divide_nonneg_nonneg) (simp_all add: rhe_nonneg)

lemma py_round_mono:
  assumes "0 \<le> x" "x \<le> y"
  shows "py_round x d \<le> py_round y d"
proof -
  have "x * 10 ^ d \<le> y * 10 ^ d" using assms(2) by (simp add: mult_right_mono)
  then have "rhe (x * 10 ^ d) \<le> rhe (y * 10 ^ d)" by (rule rhe_mono)
  then have "(of_int (rhe (x * 10 ^ d)) :: rat) / 10 ^ d \<le> of_int (rhe (y * 10 ^ d)) / 10 ^ d"
    by (simp add: divide_right_mono)
  moreover have "0 \<le> (of_int (rhe (x * 10 ^ d)) :: rat) / 10 ^ d"
    using assms(1) by (intro divide_nonneg_nonneg) (simp_all add: rhe_nonneg)
  ultimately show ?thesis unfolding py_round_def by (rule fl_mono [rotated])
qed

lemma fmul_nonneg: "0 \<le> a \<Longrightarrow> 0 \<le> b \<Longrightarrow> 0 \<le> fmul a b"
  unfolding fmul_def by (intro fl_nonneg) simp

lemma fadd_nonneg: "0 \<le> a \<Longrightarrow> 0 \<le> b \<Longrightarrow> 0 \<le> fadd a b"
  unfolding fadd_def by (intro fl_nonneg) simp

lemma fdiv_nonneg: "0 \<le> a \<Longrightarrow> 0 \<le> b \<Longrightarrow> 0 \<le> fdiv a b"
  unfolding fdiv_def by (intro fl_nonneg) simp

lemma fmul_mono:
  "0 \<le> a \<Longrightarrow> 0 \<le> b \<Longrightarrow> a \<le> a' \<Longrightarrow> b \<le> b' \<Longrightarrow> fmul a b \<le> fmul a' b'"
  unfolding fmul_def by (intro fl_mono mult_mono) simp_all

lemma fadd_mono:
  "0 \<le> a \<Longrightarrow> 0 \<le> b \<Longrightarrow> a \<le> a' \<Longrightarrow> b \<le> b' \<Longrightarrow> fadd a b \<le> fadd a' b'"
  unfolding fadd_def by (intro fl_mono add_mono) simp_all

lemma fdiv_mono:
  "0 \<le> a \<Longrightarrow> 0 \<le> b \<Longrightarrow> a \<le> a' \<Longrightarrow> fdiv a b \<le> fdiv a' b"
  unfolding fdiv_def by (intro fl_mono divide_right_mono) simp_all

lemma float_consts:
  "fl 1 = 1" "fdiv 100 100 = 1"
  "fmul (fl (6 / 10)) 1 = fl (6 / 10)" "fmul (fl (4 / 10)) 1 = fl (4 / 10)"
  "fadd (fl (6 / 10)) (fl (4 / 10)) = 1" "fmul 1 100 = 100"
  "0 \<le> fl (6 / 10)" "0 \<le> fl (4 / 10)"
  by code_simp+

lemma py_round_consts:
  "py_round 100 2 = 100" "py_round 1 3 = 1" "py_round 0 2 = 0" "py_round 0 3 = 0"
  "py_round (fl (100 * (1 + 2 powi (- 53)))) 2 = 100"
  by code_simp+

lemma combine_scores_range:
  assumes "0 \<le> s" "s \<le> 1" "0 \<le> p" "p \<le> 100"
  shows "0 \<le> combine_scores s p" "combine_scores s p \<le> 100"
proof -
  let ?n = "fdiv p 100"
  let ?t1 = "fmul (fl (6 / 10)) ?n" and ?t2 = "fmul (fl (4 / 10)) s"
  let ?c = "fadd ?t1 ?t2"
  let ?v = "fmul ?c 100"
  have n: "0 \<le> ?n" "?n \<le> 1"
    using fdiv_nonneg [of p 100] fdiv_mono [of p 100 100] assms(3,4)
    by (simp_all only: float_consts)
  have t1: "0 \<le> ?t1" "?t1 \<le> fl (6 / 10)"
    using fmul_nonneg [OF float_consts(7) n(1)]
      fmul_mono [OF float_consts(7) n(1) order_refl n(2)]
    by (simp_all only: float_consts)
  have t2: "0 \<le> ?t2" "?t2 \<le> fl (4 / 10)"
    using fmul_nonneg [OF float_consts(8) assms(1)]
      fmul_mono [OF float_consts(8) assms(1) order_refl assms(2)]
    by (simp_all only: float_consts)
  have c: "0 \<le> ?c" "?c \<le> 1"
    using fadd_nonneg [OF t1(1) t2(1)] fadd_mono [OF t1(1) t2(1) t1(2) t2(2)]
    by (simp_all only: float_consts)
  have v: "0 \<le> ?v" "?v \<le> 100"
    using fmul_nonneg [OF c(1), of 100] fmul_mono [OF c(1) _ c(2), of 100 100]
    by (simp_all only: float_consts)
  have e: "combine_scores s p = py_round ?v 2" by (simp add: combine_scores_def Let_def)
  show "0 \<le> combine_scores s p" unfolding e using v(1) by (rule py_round_nonneg)
  have "py_round ?v 2 \<le> py_round 100 2" using v by (rule py_round_mono)
  then show "combine_scores s p \<le> 100" unfolding e py_round_consts .
qed

lemma two_powi_m1022_le_1: "(2::rat) powi (- 1022) \<le> 1"
  using power_int_increasing [of "- 1022" 0 "2::rat"] by simp

lemma skill_match_pct_range:
  assumes "length matched \<le> length job"
  shows "0 \<le> skill_match_pct matched job" "skill_match_pct matched job \<le> 100"
proof -
  let ?M = "float_of_nat (length matched)" and ?N = "float_of_nat (length job)"
  let ?A = "fmul 100 ?M" and ?B = "fmul 100 ?N"
  let ?q = "fdiv ?A ?N"
  have M: "0 \<le> ?M" "?M \<le> ?N"
    unfolding float_of_nat_def using assms by (simp_all add: fl_nonneg fl_mono)
  have A: "0 \<le> ?A" "?A \<le> ?B"
    using fmul_nonneg [of 100 ?M] fmul_mono [of 100 ?M 100 ?N] M by simp_all
  have N0: "0 \<le> ?N" using M by simp
  have q0: "0 \<le> ?q" using A(1) N0 by (rule fdiv_nonneg)
  show "0 \<le> skill_match_pct matched job"
    using q0 by (simp add: skill_match_pct_def py_round_nonneg)
  show "skill_match_pct matched job \<le> 100"
  proof (cases "job = []")
    case True
    then show ?thesis by (simp add: skill_match_pct_def)
  next
    case False
    then have "1 \<le> length job" by (cases job) simp_all
    then have "fl 1 \<le> fl (of_nat (length job))" by (intro fl_mono) simp_all
    then have N1: "1 \<le> ?N" unfolding float_of_nat_def float_consts .
    define X where "X = 100 * ?N"
    define eps where "eps = (2::rat) powi (- 53)"
    have X: "0 \<le> X" "2 powi (- 1022) \<le> \<bar>X\<bar>"
      using N1 two_powi_m1022_le_1 by (simp_all add: X_def)
    have "\<bar>fl X - X\<bar> \<le> \<bar>X\<bar> * eps"
      unfolding eps_def using X(2) by (rule fl_rel_err)
    then have "fl X \<le> X + X * eps" using X(1) by (simp add: abs_le_iff)
    also have "\<dots> = X * (1 + eps)" by (simp add: algebra_simps)
    finally have B: "?B \<le> 100 * ?N * (1 + 2 powi (- 53))"
      unfolding fmul_def X_def eps_def .
    have "?A / ?N \<le> ?B / ?N" using A(2) N0 by (rule divide_right_mono)
    also have "\<dots> \<le> 100 * ?N * (1 + 2 powi (- 53)) / ?N"
      using B N0 by (rule divide_right_mono)
    also have "\<dots> = 100 * (1 + 2 powi (- 53))" using N1 by simp
    finally have "fl (?A / ?N) \<le> fl (100 * (1 + 2 powi (- 53)))"
      using A(1) N0 by (intro fl_mono) simp_all
    then have "?q \<le> fl (100 * (1 + 2 powi (- 53)))" unfolding fdiv_def .
    with q0 have "py_round ?q 2 \<le> py_round (fl (100 * (1 + 2 powi (- 53)))) 2"
      by (rule py_round_mono)
    then show ?thesis using False unfolding py_round_consts by (simp add: skill_match_pct_def)
  qed
qed

lemma matched_le_job:
  "distinct js \<Longrightarrow> length (matched_skills (compute_skill_match rs js)) \<le> length js"
proof -
  assume d: "distinct js"
  have "length (matched_skills (compute_skill_match rs js)) = card (set rs \<inter> set js)"
    by (simp add: compute_skill_match_def Let_def)
  also have "\<dots> \<le> card (set js)" by (intro card_mono) simp_all
  also have "\<dots> = length js" using d by (rule distinct_card)
  finally show ?thesis .
qed

lemma compute_text_similarity_range:
  assumes "\<forall>a b. 0 \<le> tfidf_cosine a b \<and> tfidf_cosine a b \<le> 1"
  shows "0 \<le> compute_text_similarity tfidf_cosine rt jt"
    "compute_text_similarity tfidf_cosine rt jt \<le> 1"
  using assms by (simp_all add: compute_text_similarity_def Let_def del: clean_text.simps)

section \<open>The percentage against the exact quotient\<close>

lemma fl_of_nat_exact:
  assumes "n < 2 ^ 53"
  shows "fl (of_nat n) = of_nat n"
proof (cases "n = 0")
  case True
  then show ?thesis by simp
next
  case False
  define x :: rat where "x = of_nat n"
  have "1 \<le> n" using False by simp
  then have "(of_nat 1 :: rat) \<le> of_nat n" by (simp only: of_nat_le_iff)
  then have x1: "1 \<le> x" unfolding x_def by simp
  then have x0: "x \<noteq> 0" by simp
  have "(of_nat n :: rat) < of_nat (2 ^ 53)" using assms by (simp only: of_nat_less_iff)
  then have xb: "x < 2 ^ 53" unfolding x_def by simp
  note b = ilog2_bounds [OF x0]
  have e0: "0 \<le> ilog2 x"
  proof (rule ccontr)
    assume "\<not> 0 \<le> ilog2 x"
    then have "(2::rat) powi (ilog2 x + 1) \<le> 2 powi 0" by (intro power_int_increasing) simp_all
    then show False using b(2) x1 by simp
  qed
  have e52: "ilog2 x \<le> 52"
  proof (rule ccontr)
    assume "\<not> ilog2 x \<le> 52"
    then have "(2::rat) powi 53 \<le> 2 powi (ilog2 x)" by (intro power_int_increasing) simp_all
    then show False using b(1) x1 xb by simp
  qed
  define j where "j = nat (52 - ilog2 x)"
  have j: "52 - ilog2 x = int j" using e52 by (simp add: j_def)
  have u: "(2::rat) powi (ilog2 x - 52) = 1 / 2 ^ j"
  proof -
    have "ilog2 x - 52 = - int j" using j by simp
    then have "(2::rat) powi (ilog2 x - 52) = 2 powi (- int j)" by (rule arg_cong)
    then show ?thesis by (simp add: power_int_minus divide_simps)
  qed
  have m: "max (ilog2 x) (- 1022) = ilog2 x" using e0 by simp
  have "x / (1 / 2 ^ j) = of_int (int n * 2 ^ j)" by (simp add: x_def)
  then have "rhe (x / (1 / 2 ^ j)) = int n * 2 ^ j" by (simp only: rhe_of_int)
  then have "fl x = of_int (int n * 2 ^ j) * (1 / 2 ^ j)"
    unfolding fl_unfold [OF x0] m u by simp
  then show ?thesis by (simp add: x_def)
qed


lemma two_powi_m38: "(2::rat) powi (- 1022) \<le> 2 powi (- 38)"
  by (intro power_int_increasing) simp_all

text \<open>An integer within less than one half plus \<open>1 / (2 n)\<close> of a fraction with the
  denominator \<open>n\<close> is within one half of it.\<close>

lemma nearest_of_close:
  fixes k :: int and a n :: nat
  assumes n: "0 < n" and c: "\<bar>of_int k - (of_nat a :: rat) / of_nat n\<bar> < 1 / 2 + 1 / (2 * of_nat n)"
  shows "\<bar>of_int k - (of_nat a :: rat) / of_nat n\<bar> \<le> 1 / 2"
proof -
  define D :: int where "D = 2 * int n * k - 2 * int a"
  have N: "0 < (of_nat n :: rat)" using n by simp
  have D: "(of_int D :: rat) = 2 * of_nat n * (of_int k - of_nat a / of_nat n)"
    using N by (simp add: D_def field_simps)
  have "\<bar>of_int D :: rat\<bar> = 2 * of_nat n * \<bar>of_int k - of_nat a / of_nat n\<bar>"
    unfolding D using N by (simp add: abs_mult)
  also have "\<dots> < 2 * of_nat n * (1 / 2 + 1 / (2 * of_nat n))"
    using c N by (intro mult_strict_left_mono) simp_all
  also have "\<dots> = of_nat n + 1" using N by (simp add: field_simps)
  finally have "(of_int \<bar>D\<bar> :: rat) < of_int (int n + 1)" by simp
  then have "\<bar>D\<bar> < int n + 1" by (simp only: of_int_less_iff)
  then have "\<bar>D\<bar> \<le> int n" by simp
  then have "(of_int \<bar>D\<bar> :: rat) \<le> of_int (int n)" by (simp only: of_int_le_iff)
  then have "\<bar>of_int D :: rat\<bar> \<le> of_nat n" by simp
  then have "2 * of_nat n * \<bar>of_int k - (of_nat a :: rat) / of_nat n\<bar> \<le> of_nat n"
    unfolding D using N by (simp add: abs_mult)
  then show ?thesis using N by (simp add: field_simps)
qed

lemma skill_match_pct_exact:
  assumes ne: "job \<noteq> []" and le: "length matched \<le> length job"
    and small: "length job \<le> 2 ^ 38"
  shows "\<exists>k. \<bar>of_int k - 10000 * of_nat (length matched) / of_nat (length job)\<bar> \<le> (1 / 2 :: rat)
           \<and> skill_match_pct matched job = fl (of_int k / 100)"
proof -
  define m where "m = length matched"
  define n where "n = length job"
  define X :: rat where "X = of_nat (100 * m) / of_nat n"
  define eps :: rat where "eps = 2 powi (- 53)"
  have n0: "0 < n" and mn: "m \<le> n" and nb: "n \<le> 2 ^ 38"
    using ne le small by (simp_all add: m_def n_def)
  have N: "0 < (of_nat n :: rat)" using n0 by simp
  have "n < 2 ^ 53" "m < 2 ^ 53" "100 * m < 2 ^ 53" using mn nb by simp_all
  then have M: "float_of_nat m = of_nat m" and Nf: "float_of_nat n = of_nat n"
    and A: "fl (of_nat (100 * m)) = of_nat (100 * m)"
    unfolding float_of_nat_def by (simp_all only: fl_of_nat_exact)
  have "fmul 100 (float_of_nat m) = fl (of_nat (100 * m))"
    unfolding fmul_def M by simp
  then have q: "fdiv (fmul 100 (float_of_nat m)) (float_of_nat n) = fl X"
    unfolding A Nf fdiv_def X_def by simp
  define k where "k = rhe (fl X * 100)"
  have pct: "skill_match_pct matched job = fl (of_int k / 100)"
    using ne q by (simp add: skill_match_pct_def py_round_def k_def m_def n_def)
  have X0: "0 \<le> X" unfolding X_def by simp
  have X100: "X \<le> 100"
  proof -
    have "100 * m \<le> 100 * n" using mn by simp
    then have "(of_nat (100 * m) :: rat) \<le> of_nat (100 * n)" by (simp only: of_nat_le_iff)
    then show ?thesis unfolding X_def using N by (simp add: field_simps)
  qed
  have err: "\<bar>fl X - X\<bar> \<le> 100 * eps"
  proof (cases "m = 0")
    case True
    then show ?thesis by (simp add: X_def eps_def)
  next
    case False
    then have "1 \<le> 100 * m" by simp
    then have "(of_nat 1 :: rat) \<le> of_nat (100 * m)" by (simp only: of_nat_le_iff)
    moreover have "(of_nat n :: rat) \<le> of_nat (2 ^ 38)" using nb by (simp only: of_nat_le_iff)
    ultimately have "1 / 2 ^ 38 \<le> X"
      unfolding X_def using N by (simp add: field_simps)
    then have "2 powi (- 38) \<le> X" by (simp add: power_int_minus divide_simps)
    then have "2 powi (- 1022) \<le> \<bar>X\<bar>" using two_powi_m38 X0 by simp
    then have "\<bar>fl X - X\<bar> \<le> \<bar>X\<bar> * eps" unfolding eps_def by (rule fl_rel_err)
    also have "\<dots> \<le> 100 * eps"
      using X0 X100 by (intro mult_right_mono) (simp_all add: eps_def)
    finally show ?thesis .
  qed
  have "\<bar>of_int k - X * 100\<bar> \<le> \<bar>of_int k - fl X * 100\<bar> + \<bar>fl X * 100 - X * 100\<bar>"
    by simp
  also have "\<bar>fl X * 100 - X * 100\<bar> = 100 * \<bar>fl X - X\<bar>"
  proof -
    have "fl X * 100 - X * 100 = 100 * (fl X - X)" by (simp add: algebra_simps)
    then show ?thesis by (simp only: abs_mult abs_numeral)
  qed
  finally have "\<bar>of_int k - X * 100\<bar> \<le> 1 / 2 + 100 * (100 * eps)"
    using rhe_err [of "fl X * 100"] err unfolding k_def by linarith
  moreover have "100 * (100 * eps) < 1 / (2 * of_nat n)"
  proof -
    have "(of_nat n :: rat) \<le> of_nat (2 ^ 38)" using nb by (simp only: of_nat_le_iff)
    then have "1 / (2 * (2 ^ 38 :: rat)) \<le> 1 / (2 * of_nat n)"
      using N by (intro divide_left_mono) simp_all
    moreover have "100 * (100 * eps) < 1 / (2 * (2 ^ 38 :: rat))" by (simp add: eps_def)
    ultimately show ?thesis by linarith
  qed
  moreover have "X * 100 = of_nat (10000 * m) / of_nat n" unfolding X_def by simp
  ultimately have "\<bar>of_int k - (of_nat (10000 * m) :: rat) / of_nat n\<bar>
      < 1 / 2 + 1 / (2 * of_nat n)"
    by simp
  from nearest_of_close [OF n0 this]
  have "\<bar>of_int k - 10000 * of_nat m / (of_nat n :: rat)\<bar> \<le> 1 / 2" by simp
  then show ?thesis using pct unfolding m_def n_def by blast
qed

section \<open>The combined score against the exact weighted sum\<close>

lemma fl_abs_err:
  assumes "\<bar>x\<bar> \<le> 2 powi k" "- 1022 \<le> k"
  shows "\<bar>fl x - x\<bar> \<le> 2 powi (k - 53)"
proof (cases "x = 0")
  case True
  then show ?thesis using two_powi_pos [of "k - 53"] by simp
next
  case False
  have "ilog2 x \<le> k"
  proof (rule ccontr)
    assume "\<not> ilog2 x \<le> k"
    then have "(2::rat) powi k < 2 powi (ilog2 x)" by (intro power_int_strict_increasing) simp_all
    then show False using ilog2_bounds(1) [OF False] assms(1) by linarith
  qed
  then have "max (ilog2 x) (- 1022) - 53 \<le> k - 53" using assms(2) by simp
  then have "(2::rat) powi (max (ilog2 x) (- 1022) - 53) \<le> 2 powi (k - 53)"
    by (intro power_int_increasing) simp_all
  then show ?thesis using fl_err [OF False] by linarith
qed

lemma fl_err_le_1:
  assumes "0 \<le> x" "x \<le> 1"
  shows "\<bar>fl x - x\<bar> \<le> 2 powi (- 53)"
  using fl_abs_err [of x 0] assms by simp

lemma fl_err_le_128:
  assumes "0 \<le> x" "x \<le> 128"
  shows "\<bar>fl x - x\<bar> \<le> 128 * 2 powi (- 53)"
proof -
  have "\<bar>x\<bar> \<le> 2 powi 7" using assms by simp
  then have "\<bar>fl x - x\<bar> \<le> 2 powi (7 + - 53)" using fl_abs_err [of x 7] by simp
  then show ?thesis unfolding two_powi_split by simp
qed

lemma prod_err:
  fixes a a' b b' :: rat
  assumes "0 \<le> a" "a \<le> 1" "0 \<le> b'" "b' \<le> 1" "\<bar>b - b'\<bar> \<le> d1" "\<bar>a - a'\<bar> \<le> d2"
  shows "\<bar>a * b - a' * b'\<bar> \<le> d1 + d2"
proof -
  have "a * b - a' * b' = a * (b - b') + (a - a') * b'" by (simp add: algebra_simps)
  then have "\<bar>a * b - a' * b'\<bar> \<le> \<bar>a * (b - b')\<bar> + \<bar>(a - a') * b'\<bar>" by simp
  also have "\<dots> = a * \<bar>b - b'\<bar> + \<bar>a - a'\<bar> * b'" using assms(1,3) by (simp add: abs_mult)
  also have "\<dots> \<le> 1 * d1 + d2 * 1"
  proof (intro add_mono mult_mono)
    show "a \<le> 1" "\<bar>b - b'\<bar> \<le> d1" "\<bar>a - a'\<bar> \<le> d2" "b' \<le> 1" "0 \<le> b'" by fact+
    show "0 \<le> (1::rat)" "0 \<le> \<bar>b - b'\<bar>" by simp_all
    show "0 \<le> d2" using assms(6) by linarith
  qed
  finally show ?thesis by simp
qed

lemma float_literals:
  "\<bar>fl (6 / 10) - 6 / 10\<bar> \<le> 2 powi (- 53)" "\<bar>fl (4 / 10) - 4 / 10\<bar> \<le> 2 powi (- 53)"
  "fl (6 / 10) \<le> 1" "fl (4 / 10) \<le> 1"
  by code_simp+


lemma float_literals_sum: "fl (6 / 10) + fl (4 / 10) = 1"
  by code_simp

lemma py_round_err:
  assumes "0 \<le> v" "v \<le> 100"
  shows "\<bar>py_round v 2 - v\<bar> \<le> 1 / 200 + 128 * 2 powi (- 53)"
proof -
  define k where "k = rhe (v * 100)"
  have k0: "0 \<le> k" unfolding k_def using assms(1) by (intro rhe_nonneg) simp
  have "rhe (v * 100) \<le> rhe (of_int 10000)" using assms(2) by (intro rhe_mono) simp
  then have k1: "k \<le> 10000" unfolding k_def by (simp only: rhe_of_int)
  have "\<bar>of_int k - v * 100\<bar> \<le> 1 / 2" unfolding k_def by (rule rhe_err)
  then have a: "\<bar>of_int k / 100 - v\<bar> \<le> 1 / 200" by linarith
  have "(of_int k :: rat) \<le> of_int 10000" "(of_int 0 :: rat) \<le> of_int k"
    using k0 k1 by (simp_all only: of_int_le_iff)
  then have "0 \<le> (of_int k :: rat) / 100" "(of_int k :: rat) / 100 \<le> 128" by simp_all
  then have b: "\<bar>fl (of_int k / 100) - of_int k / 100\<bar> \<le> 128 * 2 powi (- 53)"
    by (rule fl_err_le_128)
  have "py_round v 2 = fl (of_int k / 100)" by (simp add: py_round_def k_def)
  then show ?thesis using a b by linarith
qed

lemma combine_scores_error:
  assumes "0 \<le> s" "s \<le> 1" "0 \<le> p" "p \<le> 100"
  shows "\<bar>combine_scores s p - (6 / 10 * p + 40 * s)\<bar> \<le> 1 / 200 + 1 / 10 ^ 12"
proof -
  define eps :: rat where "eps = 2 powi (- 53)"
  define c6 c4 where "c6 = fl (6 / 10)" and "c4 = fl (4 / 10)"
  define n where "n = fdiv p 100"
  define t1 t2 where "t1 = fmul c6 n" and "t2 = fmul c4 s"
  define c where "c = fadd t1 t2"
  define v where "v = fmul c 100"
  have c6: "0 \<le> c6" "c6 \<le> 1" "\<bar>c6 - 6 / 10\<bar> \<le> eps"
    and c4: "0 \<le> c4" "c4 \<le> 1" "\<bar>c4 - 4 / 10\<bar> \<le> eps" and c64: "c6 + c4 = 1"
    unfolding c6_def c4_def eps_def
    using float_consts(7,8) float_literals float_literals_sum by simp_all
  have n: "0 \<le> n" "n \<le> 1"
    unfolding n_def using fdiv_nonneg [of p 100] fdiv_mono [of p 100 100] assms(3,4)
    by (simp_all only: float_consts)
  have t1: "0 \<le> t1" "t1 \<le> c6"
    unfolding t1_def c6_def
    using fmul_nonneg [OF float_consts(7) n(1)]
      fmul_mono [OF float_consts(7) n(1) order_refl n(2)]
    by (simp_all only: float_consts)
  have t2: "0 \<le> t2" "t2 \<le> c4"
    unfolding t2_def c4_def
    using fmul_nonneg [OF float_consts(8) assms(1)]
      fmul_mono [OF float_consts(8) assms(1) order_refl assms(2)]
    by (simp_all only: float_consts)
  have cc: "0 \<le> c" "c \<le> 1"
    unfolding c_def
    using fadd_nonneg [OF t1(1) t2(1)] fadd_mono [OF t1(1) t2(1) t1(2) t2(2)]
    by (simp_all only: float_consts c6_def c4_def)
  have vv: "0 \<le> v" "v \<le> 100"
    unfolding v_def
    using fmul_nonneg [OF cc(1), of 100] fmul_mono [OF cc(1) _ cc(2), of 100 100]
    by (simp_all only: float_consts)
  have en: "\<bar>n - p / 100\<bar> \<le> eps"
    unfolding n_def fdiv_def eps_def using assms(3,4) by (intro fl_err_le_1) simp_all
  have c6n: "0 \<le> c6 * n" "c6 * n \<le> 1"
    using c6(1,2) n mult_mono [of c6 1 n 1] by simp_all
  have c4s: "0 \<le> c4 * s" "c4 * s \<le> 1"
    using c4(1,2) assms(1,2) mult_mono [of c4 1 s 1] by simp_all
  have et1: "\<bar>t1 - c6 * n\<bar> \<le> eps"
    unfolding t1_def fmul_def eps_def using c6n by (rule fl_err_le_1)
  have et2: "\<bar>t2 - c4 * s\<bar> \<le> eps"
    unfolding t2_def fmul_def eps_def using c4s by (rule fl_err_le_1)
  have ec: "\<bar>c - (t1 + t2)\<bar> \<le> eps"
    unfolding c_def fadd_def eps_def using t1 t2 c64 by (intro fl_err_le_1) simp_all
  have ev: "\<bar>v - c * 100\<bar> \<le> 128 * eps"
    unfolding v_def fmul_def eps_def using cc by (intro fl_err_le_128) simp_all
  have p100: "0 \<le> p / 100" "p / 100 \<le> 1" using assms(3,4) by simp_all
  have e1: "\<bar>c6 * n - 6 / 10 * (p / 100)\<bar> \<le> eps + eps"
    using c6(1,2) p100 en c6(3) by (rule prod_err)
  have "\<bar>s - s\<bar> \<le> 0" by simp
  with c4(1,2) assms(1,2) have e2: "\<bar>c4 * s - 4 / 10 * s\<bar> \<le> 0 + eps"
    using c4(3) by (rule prod_err)
  have er: "\<bar>py_round v 2 - v\<bar> \<le> 1 / 200 + 128 * eps"
    unfolding eps_def using vv by (rule py_round_err)
  have r: "combine_scores s p = py_round v 2"
    by (simp add: combine_scores_def Let_def v_def c_def t1_def t2_def n_def c6_def c4_def)
  have small: "856 * eps \<le> 1 / 10 ^ 12" by (simp add: eps_def)
  have "\<bar>py_round v 2 - (6 / 10 * p + 40 * s)\<bar> \<le> 1 / 200 + 856 * eps"
    using er ev ec et1 et2 e1 e2 by (simp only: abs_le_iff) linarith
  then show ?thesis unfolding r using small by linarith
qed

section \<open>Skill extraction: what \<open>extract_skills\<close> returns\<close>

lemma str_in_iff: "str_in sub s \<longleftrightarrow> (\<exists>ps ss. s = ps @ sub @ ss)"
proof (induction s)
  case Nil
  then show ?case by auto
next
  case (Cons c cs)
  show ?case
  proof
    assume "str_in sub (c # cs)"
    then consider "prefix sub (c # cs)" | "str_in sub cs" by auto
    then show "\<exists>ps ss. c # cs = ps @ sub @ ss"
    proof cases
      case 1
      then obtain ss where "c # cs = sub @ ss" by (auto simp: prefix_def)
      then have "c # cs = [] @ sub @ ss" by simp
      then show ?thesis by blast
    next
      case 2
      then obtain ps ss where "cs = ps @ sub @ ss" using Cons by auto
      then have "c # cs = (c # ps) @ sub @ ss" by simp
      then show ?thesis by blast
    qed
  next
    assume "\<exists>ps ss. c # cs = ps @ sub @ ss"
    then obtain ps ss where e: "c # cs = ps @ sub @ ss" by auto
    show "str_in sub (c # cs)"
    proof (cases ps)
      case Nil
      then have "prefix sub (c # cs)" using e by (auto simp: prefix_def)
      then show ?thesis by simp
    next
      case (Cons p ps')
      then have "cs = ps' @ sub @ ss" using e by simp
      then have "str_in sub cs" using Cons.IH by blast
      then show ?thesis by simp
    qed
  qed
qed

lemma finite_found [simp]:
  "finite (phrase_found V t)" "finite (token_found V T)"
  by (simp_all add: phrase_found_def token_found_def)

lemma found_subset:
  "phrase_found V t \<subseteq> set V" "token_found V T \<subseteq> set V"
  by (auto simp: phrase_found_def token_found_def)

text \<open>
  C7.  For every text, every vocabulary and every tokenizer, the list that
  \<open>extract_skills\<close> returns holds members of the vocabulary only, holds none twice, and is
  in ascending string order; on the empty text it is empty.
\<close>

theorem extract_skills_subset_sorted:
  "set (extract_skills nlp SKILL_SET text) \<subseteq> set SKILL_SET
   \<and> distinct (extract_skills nlp SKILL_SET text)
   \<and> sorted (extract_skills nlp SKILL_SET text)
   \<and> extract_skills nlp SKILL_SET [] = []"
proof -
  have "set (extract_skills nlp SKILL_SET text) \<subseteq> set SKILL_SET"
    using found_subset by (auto simp: extract_skills_def Let_def)
  moreover have "distinct (extract_skills nlp SKILL_SET text)"
    by (simp add: extract_skills_def Let_def)
  moreover have "sorted (extract_skills nlp SKILL_SET text)"
    by (simp add: extract_skills_def Let_def)
  moreover have "extract_skills nlp SKILL_SET [] = []"
    by (simp add: extract_skills_def)
  ultimately show ?thesis by simp
qed

theorem extract_skills_subset_sorted_witness:
  "extract_skills (\<lambda>s. []) get_all_skills ''I have 3 years of experience in Python and SQL''
     = [''c'', ''python'', ''r'', ''sql'']
   \<and> set [''c'', ''python'', ''r'', ''sql''] \<subseteq> set get_all_skills
   \<and> sorted [''c'', ''python'', ''r'', ''sql'']"
proof -
  have e: "extract_skills (\<lambda>s. []) get_all_skills
             ''I have 3 years of experience in Python and SQL''
           = [''c'', ''python'', ''r'', ''sql'']"
    by code_simp
  show ?thesis
    using extract_skills_subset_sorted
      [of "\<lambda>s. []" get_all_skills "''I have 3 years of experience in Python and SQL''"]
    unfolding e by simp
qed

text \<open>
  C9.  When every token that the tokenizer produces from the normalised, lowercased text
  occurs in that text as a contiguous run, the token match finds nothing that the phrase
  match has not found: \<open>extract_skills\<close> and its variant without the token match return the
  same list.
\<close>

theorem token_match_redundant:
  assumes "\<forall>t\<in>set (nlp (lower (clean_text (Some text)))).
             \<exists>ps ss. lower (clean_text (Some text)) = ps @ t @ ss"
  shows "extract_skills nlp SKILL_SET text = extract_skills_phrase_only SKILL_SET text"
proof -
  let ?n = "lower (clean_text (Some text))"
  have "token_found SKILL_SET (set (nlp ?n)) \<subseteq> phrase_found SKILL_SET ?n"
    using assms by (auto simp: token_found_def phrase_found_def str_in_iff)
  then have "phrase_found SKILL_SET ?n \<union> token_found SKILL_SET (set (nlp ?n))
      = phrase_found SKILL_SET ?n"
    by blast
  then show ?thesis
    by (simp add: extract_skills_def extract_skills_phrase_only_def Let_def
        del: clean_text.simps)
qed

theorem token_match_redundant_witness:
  "extract_skills (\<lambda>s. [take 6 s, drop 7 s]) get_all_skills ''Python SQL'' = [''python'', ''sql'']
   \<and> extract_skills_phrase_only get_all_skills ''Python SQL'' = [''python'', ''sql'']"
proof -
  have n: "lower (clean_text (Some ''Python SQL'')) = ''python sql''"
    by code_simp
  have h: "\<forall>t\<in>set ((\<lambda>s. [take 6 s, drop 7 s]) (lower (clean_text (Some ''Python SQL'')))).
             \<exists>ps ss. lower (clean_text (Some ''Python SQL'')) = ps @ t @ ss"
    unfolding n by (simp add: str_in_iff [symmetric])
  have e: "extract_skills_phrase_only get_all_skills ''Python SQL'' = [''python'', ''sql'']"
    by code_simp
  show ?thesis
    using token_match_redundant [of "\<lambda>s. [take 6 s, drop 7 s]" "''Python SQL''" get_all_skills, OF h] e
    by simp
qed

section \<open>The experience estimator: when it answers, and with what\<close>

text \<open>The matcher against the language: \<open>ends\<close> lists exactly the splits of the input
  into a word of the language and a rest.\<close>

lemma take_le_takeWhile:
  "k \<le> length (takeWhile P s) \<Longrightarrow> take k s = take k (takeWhile P s)"
proof -
  assume k: "k \<le> length (takeWhile P s)"
  have "take k s = take k (takeWhile P s @ dropWhile P s)" by simp
  also have "\<dots> = take k (takeWhile P s)" using k by (simp only: take_append) simp
  finally show ?thesis .
qed

lemma ends_Star_set:
  "set (ends (Star P) s) = (\<lambda>k. drop k s) ` {k. k \<le> length (takeWhile P s)}"
proof -
  have "{0..<Suc (length (takeWhile P s))} = {k. k \<le> length (takeWhile P s)}"
    by auto
  then show ?thesis by (simp only: ends.simps set_map set_rev set_upt)
qed

lemma ends_Star_iff:
  "r \<in> set (ends (Star P) s) \<longleftrightarrow> (\<exists>w. (\<forall>c\<in>set w. P c) \<and> s = w @ r)"
proof
  assume "r \<in> set (ends (Star P) s)"
  then obtain k where k: "k \<le> length (takeWhile P s)" and r: "r = drop k s"
    unfolding ends_Star_set by blast
  have "set (take k (takeWhile P s)) \<subseteq> set (takeWhile P s)"
    by (rule set_take_subset)
  then have "set (take k s) \<subseteq> set (takeWhile P s)"
    using take_le_takeWhile [OF k] by simp
  then have "\<forall>c\<in>set (take k s). P c" by (auto dest: set_takeWhileD)
  moreover have "s = take k s @ r" using r by simp
  ultimately show "\<exists>w. (\<forall>c\<in>set w. P c) \<and> s = w @ r" by blast
next
  assume "\<exists>w. (\<forall>c\<in>set w. P c) \<and> s = w @ r"
  then obtain w where w: "\<forall>c\<in>set w. P c" and s: "s = w @ r" by blast
  have "takeWhile P s = w @ takeWhile P r" using w s by (simp add: takeWhile_append2)
  then have "length w \<le> length (takeWhile P s)" by simp
  moreover have "r = drop (length w) s" using s by simp
  ultimately show "r \<in> set (ends (Star P) s)"
    unfolding ends_Star_set by blast
qed


lemma ends_iff: "r \<in> set (ends x s) \<longleftrightarrow> (\<exists>w\<in>lang x. s = w @ r)"
proof (induction x arbitrary: s r)
  case (Lit w)
  have "r \<in> set (ends (Lit w) s) \<longleftrightarrow> prefix w s \<and> r = drop (length w) s"
    by auto
  also have "\<dots> \<longleftrightarrow> s = w @ r"
    by (auto simp: prefix_def)
  finally show ?case by simp
next
  case (Class P)
  show ?case
  proof (cases s)
    case Nil
    then show ?thesis by simp
  next
    case (Cons c cs)
    then show ?thesis by (cases "P c") auto
  qed
next
  case (Cat a b)
  show ?case
  proof
    assume "r \<in> set (ends (Cat a b) s)"
    then obtain m where m: "m \<in> set (ends a s)" and r: "r \<in> set (ends b m)"
      by auto
    from m obtain u where u: "u \<in> lang a" "s = u @ m" using Cat.IH(1) by blast
    from r obtain v where v: "v \<in> lang b" "m = v @ r" using Cat.IH(2) by blast
    have "u @ v \<in> lang (Cat a b)" using u(1) v(1) by auto
    moreover have "s = (u @ v) @ r" using u(2) v(2) by simp
    ultimately show "\<exists>w\<in>lang (Cat a b). s = w @ r" by (rule bexI [rotated])
  next
    assume "\<exists>w\<in>lang (Cat a b). s = w @ r"
    then obtain u v where u: "u \<in> lang a" and v: "v \<in> lang b" and s: "s = (u @ v) @ r"
      by auto
    have "v @ r \<in> set (ends a s)" using u s Cat.IH(1) [of "v @ r" s] by auto
    moreover have "r \<in> set (ends b (v @ r))" using v Cat.IH(2) [of r "v @ r"] by auto
    ultimately show "r \<in> set (ends (Cat a b) s)" by auto
  qed
next
  case (Alt a b)
  have "r \<in> set (ends (Alt a b) s) \<longleftrightarrow> r \<in> set (ends a s) \<or> r \<in> set (ends b s)"
    by simp
  then show ?case using Alt.IH by auto
next
  case (Opt a)
  have "r \<in> set (ends (Opt a) s) \<longleftrightarrow> r \<in> set (ends a s) \<or> r = s"
    by auto
  then show ?case using Opt.IH by auto
next
  case (Star P)
  show ?case using ends_Star_iff [of r P s] by auto
qed

lemma match_at_None_iff:
  "match_at g r s = None \<longleftrightarrow> \<not> (\<exists>w\<in>lang (Cat g r). prefix w s)"
proof -
  let ?ms = "concat (map (\<lambda>s1. map (\<lambda>s2. (s1, s2)) (ends r s1)) (ends g s))"
  have "match_at g r s = None \<longleftrightarrow> ?ms = []"
  proof (cases ?ms)
    case Nil
    then show ?thesis by (simp only: match_at_def list.case simp_thms)
  next
    case (Cons p ps)
    then show ?thesis
      by (cases p) (simp only: match_at_def list.case prod.case option.distinct list.distinct simp_thms)
  qed
  also have "\<dots> \<longleftrightarrow> set ?ms = {}" by (simp only: set_empty)
  also have "\<dots> \<longleftrightarrow> set (ends (Cat g r) s) = {}" by auto
  also have "\<dots> \<longleftrightarrow> \<not> (\<exists>m. m \<in> set (ends (Cat g r) s))"
    by (simp only: ex_in_conv simp_thms)
  also have "\<dots> \<longleftrightarrow> \<not> (\<exists>w\<in>lang (Cat g r). prefix w s)"
    unfolding ends_iff prefix_def by blast
  finally show ?thesis .
qed

lemma findall_from_Nil_iff:
  "findall_from g r 0 s = [] \<longleftrightarrow> (\<forall>t. t \<noteq> [] \<and> suffix t s \<longrightarrow> match_at g r t = None)"
proof (induction s)
  case Nil
  then show ?case by simp
next
  case (Cons c cs)
  have "findall_from g r 0 (c # cs) = [] \<longleftrightarrow>
        match_at g r (c # cs) = None \<and> findall_from g r 0 cs = []"
    by (auto split: option.splits)
  also have "\<dots> \<longleftrightarrow> (\<forall>t. t \<noteq> [] \<and> suffix t (c # cs) \<longrightarrow> match_at g r t = None)"
    unfolding Cons.IH by (auto simp: suffix_Cons)
  finally show ?case .
qed

lemma findall_Nil_iff:
  assumes "[] \<notin> lang (Cat g r)"
  shows "findall g r s = [] \<longleftrightarrow> \<not> (\<exists>ps w ss. s = ps @ w @ ss \<and> w \<in> lang (Cat g r))"
proof
  assume e: "findall g r s = []"
  show "\<not> (\<exists>ps w ss. s = ps @ w @ ss \<and> w \<in> lang (Cat g r))"
  proof
    assume "\<exists>ps w ss. s = ps @ w @ ss \<and> w \<in> lang (Cat g r)"
    then obtain ps w ss where s: "s = ps @ w @ ss" and w: "w \<in> lang (Cat g r)" by blast
    have "w \<noteq> []" using w assms by auto
    then have "w @ ss \<noteq> []" "suffix (w @ ss) s" using s by (auto simp: suffix_def)
    then have "match_at g r (w @ ss) = None"
      using e by (simp add: findall_def findall_from_Nil_iff)
    then show False using w by (auto simp: match_at_None_iff simp del: lang.simps)
  qed
next
  assume n: "\<not> (\<exists>ps w ss. s = ps @ w @ ss \<and> w \<in> lang (Cat g r))"
  have "match_at g r t = None" if st: "suffix t s" for t
  proof (rule ccontr)
    assume "match_at g r t \<noteq> None"
    then obtain w where w: "w \<in> lang (Cat g r)" and p: "prefix w t"
      by (auto simp: match_at_None_iff simp del: lang.simps)
    obtain ps ss where "s = ps @ w @ ss"
      using st p by (auto simp: prefix_def suffix_def)
    then show False using n w by blast
  qed
  then show "findall g r s = []" by (simp add: findall_def findall_from_Nil_iff)
qed


lemma years_group_nonempty: "[] \<notin> lang years_group"
  by (simp add: years_group_def)

lemma Cat_nonempty: "[] \<notin> lang g \<Longrightarrow> [] \<notin> lang (Cat g r)"
  by simp

text \<open>
  C5, as the code has it.  \<open>extract_years_of_experience\<close> returns \<open>None\<close> exactly when the
  text is empty or its normalised, lowercased form holds no match of the pattern: one or
  two decimal digits, optional whitespace, optionally a literal "+", optional whitespace,
  one of the words "years", "year", "yrs".  Otherwise it returns the greatest of the
  numbers of the matches that the scan from left to right finds, each taken after the
  end of the one before.
\<close>

theorem extract_years_of_experience_max:
  "(extract_years_of_experience text = None \<longleftrightarrow>
      text = [] \<or> \<not> (\<exists>ps w ss. lower (clean_text (Some text)) = ps @ w @ ss
                        \<and> w \<in> lang (Cat years_group years_rest)))
   \<and> (\<forall>y. extract_years_of_experience text = Some y \<longrightarrow>
        y \<in> int_of_digits ` set (findall years_group years_rest (lower (clean_text (Some text))))
        \<and> (\<forall>m\<in>set (findall years_group years_rest (lower (clean_text (Some text)))).
              int_of_digits m \<le> y))"
proof -
  let ?ms = "findall years_group years_rest (lower (clean_text (Some text)))"
  have ne: "[] \<notin> lang (Cat years_group years_rest)"
    using years_group_nonempty by (rule Cat_nonempty)
  have "extract_years_of_experience text = None \<longleftrightarrow> text = [] \<or> ?ms = []"
    by (simp add: extract_years_of_experience_def Let_def del: clean_text.simps)
  then have a: "extract_years_of_experience text = None \<longleftrightarrow>
      text = [] \<or> \<not> (\<exists>ps w ss. lower (clean_text (Some text)) = ps @ w @ ss
                        \<and> w \<in> lang (Cat years_group years_rest))"
    by (simp only: findall_Nil_iff [OF ne])
  have b: "y \<in> int_of_digits ` set ?ms \<and> (\<forall>m\<in>set ?ms. int_of_digits m \<le> y)"
    if "extract_years_of_experience text = Some y" for y
  proof -
    from that have m: "?ms \<noteq> []" and y: "y = Max (set (map int_of_digits ?ms))"
      by (auto simp: extract_years_of_experience_def Let_def simp del: clean_text.simps
          split: if_splits)
    have fin: "finite (set (map int_of_digits ?ms))" by simp
    have nem: "set (map int_of_digits ?ms) \<noteq> {}" using m by simp
    have "y \<in> set (map int_of_digits ?ms)"
      unfolding y using fin nem by (rule Max_in)
    moreover have "\<forall>v\<in>set (map int_of_digits ?ms). v \<le> y"
      unfolding y using Max_ge [OF fin] by blast
    ultimately show ?thesis by simp
  qed
  show ?thesis using a b by blast
qed

theorem extract_years_of_experience_max_witness:
  "extract_years_of_experience ''2 years... later 5+ Years'' = Some 5
   \<and> findall years_group years_rest (lower (clean_text (Some ''2 years... later 5+ Years'')))
       = [''2'', ''5'']
   \<and> (\<exists>ps w ss. lower (clean_text (Some ''2 years... later 5+ Years'')) = ps @ w @ ss
                        \<and> w \<in> lang (Cat years_group years_rest))"
proof -
  have e: "extract_years_of_experience ''2 years... later 5+ Years'' = Some 5"
    by code_simp
  have f: "findall years_group years_rest (lower (clean_text (Some ''2 years... later 5+ Years'')))
       = [''2'', ''5'']"
    by code_simp
  show ?thesis
    using extract_years_of_experience_max [of "''2 years... later 5+ Years''"] e f
    by (simp del: clean_text.simps lang.simps)
qed

text \<open>
  C5, as the specification words the pattern (no whitespace between the digits and the
  "+"), fails: "5 + years" holds no match of that pattern, neither as it is nor
  normalised, and the estimator returns 5.
\<close>

theorem spec_years_pattern_counterexample:
  "extract_years_of_experience ''5 + years'' = Some 5
   \<and> \<not> (\<exists>ps w ss. lower (clean_text (Some ''5 + years'')) = ps @ w @ ss
                 \<and> w \<in> lang (Cat years_group spec_years_rest))
   \<and> \<not> (\<exists>ps w ss. ''5 + years'' = ps @ w @ ss
                 \<and> w \<in> lang (Cat years_group spec_years_rest))"
proof -
  have ne: "[] \<notin> lang (Cat years_group spec_years_rest)"
    using years_group_nonempty by (rule Cat_nonempty)
  have n: "lower (clean_text (Some ''5 + years'')) = ''5 + years''"
    by code_simp
  have f: "findall years_group spec_years_rest ''5 + years'' = []"
    by code_simp
  have e: "extract_years_of_experience ''5 + years'' = Some 5"
    by code_simp
  show ?thesis
    using e f unfolding n findall_Nil_iff [OF ne] by simp
qed

section \<open>Skill matching: set algebra and order\<close>

text \<open>
  C1.  For all lists of resume skills and job skills, read as sets A and B, the match has
  matched = A \<inter> B, missing = B - A and extra = A - B, each as a list in strictly
  ascending string order (so without repetition); the result depends on the two sets alone,
  not on the order or the repetitions of the input lists, and for two empty inputs all
  three lists are empty.
\<close>

theorem compute_skill_match_set_algebra:
  "set (matched_skills (compute_skill_match rs js)) = set rs \<inter> set js
   \<and> set (missing_skills (compute_skill_match rs js)) = set js - set rs
   \<and> set (extra_resume_skills (compute_skill_match rs js)) = set rs - set js
   \<and> sorted_wrt (<) (matched_skills (compute_skill_match rs js))
   \<and> sorted_wrt (<) (missing_skills (compute_skill_match rs js))
   \<and> sorted_wrt (<) (extra_resume_skills (compute_skill_match rs js))
   \<and> (set rs = set rs' \<and> set js = set js' \<longrightarrow>
        compute_skill_match rs js = compute_skill_match rs' js')
   \<and> compute_skill_match [] [] =
        \<lparr>matched_skills = [], missing_skills = [], extra_resume_skills = []\<rparr>"
  by (simp add: compute_skill_match_def Let_def)

theorem compute_skill_match_set_algebra_witness:
  "compute_skill_match [''sql'', ''python'', ''sql'', ''c++''] [''aws'', ''sql'', ''python'']
     = \<lparr>matched_skills = [''python'', ''sql''], missing_skills = [''aws''],
        extra_resume_skills = [''c++'']\<rparr>
   \<and> compute_skill_match [''c++'', ''python'', ''sql''] [''python'', ''aws'', ''sql'']
     = compute_skill_match [''sql'', ''python'', ''sql'', ''c++''] [''aws'', ''sql'', ''python'']"
proof -
  have e: "compute_skill_match [''sql'', ''python'', ''sql'', ''c++''] [''aws'', ''sql'', ''python'']
     = \<lparr>matched_skills = [''python'', ''sql''], missing_skills = [''aws''],
        extra_resume_skills = [''c++'']\<rparr>"
    by code_simp
  have "set [''c++'', ''python'', ''sql''] = set [''sql'', ''python'', ''sql'', ''c++'']
      \<and> set [''python'', ''aws'', ''sql''] = set [''aws'', ''sql'', ''python'']"
    by auto
  then have "compute_skill_match [''c++'', ''python'', ''sql''] [''python'', ''aws'', ''sql'']
     = compute_skill_match [''sql'', ''python'', ''sql'', ''c++''] [''aws'', ''sql'', ''python'']"
    using compute_skill_match_set_algebra
      [of "[''c++'', ''python'', ''sql'']" "[''python'', ''aws'', ''sql'']"
          "[''sql'', ''python'', ''sql'', ''c++'']" "[''aws'', ''sql'', ''python'']"]
    by blast
  then show ?thesis using e by simp
qed

section \<open>Document ingestion: which paths are refused\<close>

lemma pdf_docx_disjoint: "suffix ''.docx'' s \<Longrightarrow> \<not> suffix ''.pdf'' s"
proof
  assume "suffix ''.docx'' s" and "suffix ''.pdf'' s"
  then obtain a b where "s = a @ ''.docx''" and "s = b @ ''.pdf''"
    by (auto simp: suffix_def)
  then have "last (a @ ''.docx'') = last (b @ ''.pdf'')" by simp
  then show False by simp
qed

text \<open>
  C10.  \<open>extract_text\<close> raises its \<open>ValueError\<close> ("Unsupported file type...") exactly when
  the lowercased path ends neither in ".pdf" nor in ".docx".  A path whose lowercased form
  ends in ".pdf" goes to the PDF extractor and one whose lowercased form ends in ".docx"
  to the DOCX extractor, whatever the case of the letters of the extension.
\<close>

theorem extract_text_unsupported_iff:
  "(extract_text pdf_pages docx_paragraphs file_path
      = Inl (ValueError ''Unsupported file type. Please upload a PDF or DOCX resume.'')
    \<longleftrightarrow> \<not> suffix ''.pdf'' (lower file_path) \<and> \<not> suffix ''.docx'' (lower file_path))
   \<and> (suffix ''.pdf'' (lower file_path) \<longrightarrow>
        extract_text pdf_pages docx_paragraphs file_path
          = extract_text_from_pdf pdf_pages file_path)
   \<and> (suffix ''.docx'' (lower file_path) \<longrightarrow>
        extract_text pdf_pages docx_paragraphs file_path
          = extract_text_from_docx docx_paragraphs file_path)"
proof -
  have "extract_text_from_pdf pdf_pages file_path \<noteq> Inl (ValueError m)" for m
    by (simp add: extract_text_from_pdf_def split: sum.splits)
  moreover have "extract_text_from_docx docx_paragraphs file_path \<noteq> Inl (ValueError m)" for m
    by (simp add: extract_text_from_docx_def split: sum.splits)
  ultimately show ?thesis
    using pdf_docx_disjoint [of "lower file_path"]
    by (auto simp: extract_text_def Let_def)
qed

theorem extract_text_unsupported_iff_witness:
  "extract_text (\<lambda>p. Inr [Some ''page one'', None]) (\<lambda>p. (Inl () :: unit + string list)) ''CV.PDF''
     = Inr [CHR ''p'', CHR ''a'', CHR ''g'', CHR ''e'', CHR '' '', CHR ''o'', CHR ''n'', CHR ''e'',
            CHR 0x0A, CHR 0x0A]
   \<and> extract_text (\<lambda>p. (Inl () :: unit + string option list)) (\<lambda>p. Inr [''a'', ''b'']) ''cv.DocX''
     = Inr [CHR ''a'', CHR 0x0A, CHR ''b'']
   \<and> extract_text (\<lambda>p. (Inr [] :: unit + string option list)) (\<lambda>p. Inr []) ''resume.pdf.txt''
     = Inl (ValueError ''Unsupported file type. Please upload a PDF or DOCX resume.'')"
proof -
  have l1: "lower ''CV.PDF'' = ''cv.pdf''" by code_simp
  have l2: "lower ''cv.DocX'' = ''cv.docx''" by code_simp
  have l3: "lower ''resume.pdf.txt'' = ''resume.pdf.txt''" by code_simp
  note l = l1 l2 l3
  have s: "suffix ''.pdf'' ''cv.pdf''" "suffix ''.docx'' ''cv.docx''"
    "\<not> suffix ''.pdf'' ''resume.pdf.txt''" "\<not> suffix ''.docx'' ''resume.pdf.txt''"
    by (simp_all add: suffix_to_prefix)
  show ?thesis
    using extract_text_unsupported_iff
        [of "\<lambda>p. Inr [Some ''page one'', None]" "\<lambda>p. (Inl () :: unit + string list)" "''CV.PDF''"]
      extract_text_unsupported_iff
        [of "\<lambda>p. (Inl () :: unit + string option list)" "\<lambda>p. Inr [''a'', ''b'']" "''cv.DocX''"]
      extract_text_unsupported_iff
        [of "\<lambda>p. (Inr [] :: unit + string option list)" "\<lambda>p. Inr []" "''resume.pdf.txt''"]
    unfolding l using s
    by (simp add: extract_text_from_pdf_def extract_text_from_docx_def or_empty_def)
qed

section \<open>An analysis, evaluated\<close>

text \<open>The analysis of a short resume against a short job description, with the actual
  vocabulary, a tokenizer that yields no token and a similarity of one half.\<close>

lemma example_analysis:
  "run_analysis (\<lambda>s. []) get_all_skills (\<lambda>a b. 1 / 2)
       ''I have 3 years of experience in python and sql''
       ''Looking for a candidate skilled in python, sql, and aws with 2+ years experience''
   = \<lparr>overall_match_score = 68, skill_match_percentage = 80, text_similarity_score = 1 / 2,
       resume_profile =
         \<lparr>skills = [''c'', ''python'', ''r'', ''sql''], years_of_experience = Some 3\<rparr>,
       job_profile = \<lparr>required_skills = [''aws'', ''c'', ''python'', ''r'', ''sql'']\<rparr>,
       skills_match =
         \<lparr>matched_skills = [''c'', ''python'', ''r'', ''sql''], missing_skills = [''aws''],
            extra_resume_skills = []\<rparr>,
       notes' = Some ''Consider learning or explicitly mentioning these skills: aws. Decent match. Highlight key relevant projects and skills to strengthen your application.''\<rparr>"
  by code_simp

section \<open>The notes of an analysis\<close>

lemma analysis_notes_eq:
  "analysis_notes missing overall_score =
     Some ((if missing \<noteq> []
            then ''Consider learning or explicitly mentioning these skills: ''
                 @ join '', '' missing @ ''. ''
            else [])
           @ (if overall_score < 50
              then ''Overall match is low. You may need to tailor your resume more closely to this role.''
              else if overall_score < 75
              then ''Decent match. Highlight key relevant projects and skills to strengthen your application.''
              else ''Strong match. Ensure your achievements are quantified and clearly described.''))"
  by (simp add: analysis_notes_def)

text \<open>
  C6.  The notes of every analysis are present.  They are the score-tier message, one of
  three: the low-match message when the overall score is below 50, the moderate-match
  message when it is at least 50 and below 75, the strong-match message when it is at
  least 75; and before it, exactly when there are missing skills, the message
  "Consider learning or explicitly mentioning these skills: ", the missing skills joined
  by ", ", a full stop, and a space.
\<close>

theorem run_analysis_notes:
  fixes nlp SKILL_SET tfidf_cosine resume_text job_text
  defines "r \<equiv> run_analysis nlp SKILL_SET tfidf_cosine resume_text job_text"
  defines "missing \<equiv> missing_skills (skills_match r)"
  defines "score \<equiv> overall_match_score r"
  defines "message \<equiv> ''Consider learning or explicitly mentioning these skills: ''
                      @ join '', '' missing @ ''.''"
  shows "\<exists>n. notes' r = Some n
     \<and> (prefix message n \<longleftrightarrow> missing \<noteq> [])
     \<and> (score < 50 \<longrightarrow>
          n = (if missing \<noteq> [] then message @ '' '' else [])
              @ ''Overall match is low. You may need to tailor your resume more closely to this role.'')
     \<and> (50 \<le> score \<and> score < 75 \<longrightarrow>
          n = (if missing \<noteq> [] then message @ '' '' else [])
              @ ''Decent match. Highlight key relevant projects and skills to strengthen your application.'')
     \<and> (75 \<le> score \<longrightarrow>
          n = (if missing \<noteq> [] then message @ '' '' else [])
              @ ''Strong match. Ensure your achievements are quantified and clearly described.'')"
proof -
  have n: "notes' r = analysis_notes missing score"
    by (simp add: r_def missing_def score_def run_analysis_def Let_def)
  show ?thesis
    unfolding n analysis_notes_eq message_def
    by (cases "missing = []") auto
qed

theorem run_analysis_notes_witness:
  "notes' (run_analysis (\<lambda>s. []) get_all_skills (\<lambda>a b. 1 / 2)
       ''I have 3 years of experience in python and sql''
       ''Looking for a candidate skilled in python, sql, and aws with 2+ years experience'')
     = Some (''Consider learning or explicitly mentioning these skills: aws. ''
             @ ''Decent match. Highlight key relevant projects and skills to strengthen your application.'')
   \<and> overall_match_score (run_analysis (\<lambda>s. []) get_all_skills (\<lambda>a b. 1 / 2)
       ''I have 3 years of experience in python and sql''
       ''Looking for a candidate skilled in python, sql, and aws with 2+ years experience'') = 68
   \<and> missing_skills (skills_match (run_analysis (\<lambda>s. []) get_all_skills (\<lambda>a b. 1 / 2)
       ''I have 3 years of experience in python and sql''
       ''Looking for a candidate skilled in python, sql, and aws with 2+ years experience''))
     = [''aws'']"
proof -
  let ?r = "run_analysis (\<lambda>s. []) get_all_skills (\<lambda>a b. 1 / 2)
       ''I have 3 years of experience in python and sql''
       ''Looking for a candidate skilled in python, sql, and aws with 2+ years experience''"
  show ?thesis
    using run_analysis_notes [of "\<lambda>s. []" get_all_skills "\<lambda>a b. 1 / 2"
        "''I have 3 years of experience in python and sql''"
        "''Looking for a candidate skilled in python, sql, and aws with 2+ years experience''"]
    unfolding example_analysis by simp
qed

section \<open>The result of an analysis: ranges\<close>

lemma distinct_extract_skills: "distinct (extract_skills nlp SKILL_SET text)"
  by (simp add: extract_skills_def Let_def)

text \<open>
  C4.  When the vectorizer's similarity is always in [0, 1], the result of every analysis
  has its overall score in [0, 100], its skill match percentage in [0, 100] and its text
  similarity in [0, 1].
\<close>

theorem run_analysis_ranges:
  assumes "\<forall>a b. 0 \<le> tfidf_cosine a b \<and> tfidf_cosine a b \<le> 1"
  shows "0 \<le> overall_match_score (run_analysis nlp SKILL_SET tfidf_cosine resume_text job_text)
     \<and> overall_match_score (run_analysis nlp SKILL_SET tfidf_cosine resume_text job_text) \<le> 100
     \<and> 0 \<le> skill_match_percentage (run_analysis nlp SKILL_SET tfidf_cosine resume_text job_text)
     \<and> skill_match_percentage (run_analysis nlp SKILL_SET tfidf_cosine resume_text job_text) \<le> 100
     \<and> 0 \<le> text_similarity_score (run_analysis nlp SKILL_SET tfidf_cosine resume_text job_text)
     \<and> text_similarity_score (run_analysis nlp SKILL_SET tfidf_cosine resume_text job_text) \<le> 1"
proof -
  let ?rs = "extract_skills nlp SKILL_SET resume_text"
  let ?js = "extract_skills nlp SKILL_SET job_text"
  let ?pct = "skill_match_pct (matched_skills (compute_skill_match ?rs ?js)) ?js"
  let ?sim = "compute_text_similarity tfidf_cosine resume_text job_text"
  have len: "length (matched_skills (compute_skill_match ?rs ?js)) \<le> length ?js"
    using distinct_extract_skills by (rule matched_le_job)
  note pct = skill_match_pct_range [OF len]
  note sim = compute_text_similarity_range [OF assms, of resume_text job_text]
  note overall = combine_scores_range [OF sim pct]
  have "py_round ?sim 3 \<le> py_round 1 3" using sim by (rule py_round_mono)
  then have sim3: "0 \<le> py_round ?sim 3" "py_round ?sim 3 \<le> 1"
    using sim(1) by (simp_all add: py_round_nonneg py_round_consts)
  have "overall_match_score (run_analysis nlp SKILL_SET tfidf_cosine resume_text job_text)
      = combine_scores ?sim ?pct"
    "skill_match_percentage (run_analysis nlp SKILL_SET tfidf_cosine resume_text job_text) = ?pct"
    "text_similarity_score (run_analysis nlp SKILL_SET tfidf_cosine resume_text job_text)
      = py_round ?sim 3"
    by (simp_all add: run_analysis_def build_resume_profile_def build_job_profile_def Let_def)
  then show ?thesis using pct overall sim3 by simp
qed

theorem run_analysis_ranges_witness:
  "overall_match_score (run_analysis (\<lambda>s. []) get_all_skills (\<lambda>a b. 1 / 2)
       ''I have 3 years of experience in python and sql''
       ''Looking for a candidate skilled in python, sql, and aws with 2+ years experience'') = 68
   \<and> skill_match_percentage (run_analysis (\<lambda>s. []) get_all_skills (\<lambda>a b. 1 / 2)
       ''I have 3 years of experience in python and sql''
       ''Looking for a candidate skilled in python, sql, and aws with 2+ years experience'') = 80
   \<and> text_similarity_score (run_analysis (\<lambda>s. []) get_all_skills (\<lambda>a b. 1 / 2)
       ''I have 3 years of experience in python and sql''
       ''Looking for a candidate skilled in python, sql, and aws with 2+ years experience'') = 1 / 2
   \<and> (68::rat) \<le> 100 \<and> (80::rat) \<le> 100 \<and> (1 / 2 :: rat) \<le> 1"
proof -
  have h: "\<forall>a b :: string. 0 \<le> (1 / 2 :: rat) \<and> (1 / 2 :: rat) \<le> 1" by simp
  show ?thesis
    using run_analysis_ranges [of "\<lambda>a b. 1 / 2", OF h, of "\<lambda>s. []" get_all_skills
        "''I have 3 years of experience in python and sql''"
        "''Looking for a candidate skilled in python, sql, and aws with 2+ years experience''"]
    unfolding example_analysis by simp
qed

section \<open>The skill match percentage\<close>

lemma pct_2_of_4:
  "py_round (fdiv (fmul 100 (float_of_nat 2)) (float_of_nat 4)) 2 = 50"
  by code_simp

text \<open>
  C3.  The skill match percentage is 0 (not 100) when there are no job skills.  Otherwise
  it is \<open>100 * |matched| / |job_skills|\<close>, computed on floats and rounded to 2 decimal
  places: for matched skills no more than the job skills, and up to \<open>2^38\<close> job skills, it
  is the float nearest to \<open>k / 100\<close> for an integer \<open>k\<close> nearest to the exact
  \<open>10000 * |matched| / |job_skills|\<close>.  With 4 job skills and 2 matched it is 50.
\<close>

theorem skill_match_pct_policy:
  "skill_match_pct matched [] = 0
   \<and> (job \<noteq> [] \<longrightarrow>
        skill_match_pct matched job
          = py_round (fdiv (fmul 100 (float_of_nat (length matched)))
                           (float_of_nat (length job))) 2)
   \<and> (job \<noteq> [] \<and> length matched \<le> length job \<and> length job \<le> 2 ^ 38 \<longrightarrow>
        (\<exists>k. \<bar>of_int k - 10000 * of_nat (length matched) / of_nat (length job)\<bar> \<le> (1 / 2 :: rat)
           \<and> skill_match_pct matched job = fl (of_int k / 100)))
   \<and> (length job = 4 \<and> length matched = 2 \<longrightarrow> skill_match_pct matched job = 50)"
proof -
  have a: "skill_match_pct matched [] = 0" by (simp add: skill_match_pct_def)
  have b: "job \<noteq> [] \<longrightarrow>
        skill_match_pct matched job
          = py_round (fdiv (fmul 100 (float_of_nat (length matched)))
                           (float_of_nat (length job))) 2"
    by (simp add: skill_match_pct_def)
  have c: "job \<noteq> [] \<and> length matched \<le> length job \<and> length job \<le> 2 ^ 38 \<longrightarrow>
        (\<exists>k. \<bar>of_int k - 10000 * of_nat (length matched) / of_nat (length job)\<bar> \<le> (1 / 2 :: rat)
           \<and> skill_match_pct matched job = fl (of_int k / 100))"
    using skill_match_pct_exact by blast
  have d: "length job = 4 \<and> length matched = 2 \<longrightarrow> skill_match_pct matched job = 50"
  proof
    assume l: "length job = 4 \<and> length matched = 2"
    then have "job \<noteq> []" by auto
    then show "skill_match_pct matched job = 50"
      using l pct_2_of_4 by (simp add: skill_match_pct_def)
  qed
  show ?thesis using a b c d by blast
qed

theorem skill_match_pct_policy_witness:
  "skill_match_pct [''python'', ''sql''] [''aws'', ''git'', ''python'', ''sql''] = 50
   \<and> (\<exists>k. \<bar>of_int k - 10000 * 2 / 3\<bar> \<le> (1 / 2 :: rat)
         \<and> skill_match_pct [''python'', ''sql''] [''aws'', ''python'', ''sql''] = fl (of_int k / 100))
   \<and> skill_match_pct [''python'', ''sql''] [''aws'', ''python'', ''sql''] = fl (6667 / 100)
   \<and> skill_match_pct [] [] = 0"
proof -
  let ?M = "[''python'', ''sql'']"
  let ?J3 = "[''aws'', ''python'', ''sql'']" and ?J4 = "[''aws'', ''git'', ''python'', ''sql'']"
  have a: "skill_match_pct ?M ?J4 = 50"
    using skill_match_pct_policy [of ?M ?J4] by simp
  have h: "?J3 \<noteq> [] \<and> length ?M \<le> length ?J3 \<and> length ?J3 \<le> 2 ^ 38" by simp
  with skill_match_pct_policy [of ?M ?J3]
  obtain k where k: "\<bar>of_int k - 10000 * of_nat (length ?M) / of_nat (length ?J3)\<bar> \<le> (1 / 2 :: rat)"
      "skill_match_pct ?M ?J3 = fl (of_int k / 100)"
    by blast
  have "\<bar>of_int k - 10000 * 2 / 3\<bar> \<le> (1 / 2 :: rat)" using k(1) by simp
  then have b: "\<exists>k. \<bar>of_int k - 10000 * 2 / 3\<bar> \<le> (1 / 2 :: rat)
         \<and> skill_match_pct ?M ?J3 = fl (of_int k / 100)"
    using k(2) by blast
  have c: "skill_match_pct ?M ?J3 = fl (6667 / 100)"
    by code_simp
  have d: "skill_match_pct [] [] = 0"
    using skill_match_pct_policy [of "[]" "[]"] by simp
  show ?thesis using a b c d by blast
qed

section \<open>The combined score\<close>

text \<open>
  C2, as the code has it.  \<open>combine_scores\<close> is
  \<open>round((0.6 * (skill_match_pct / 100) + 0.4 * text_sim) * 100, 2)\<close> on floats, the
  operations in this order: the percentage is divided by 100 first, and the weighted sum
  is multiplied by 100 last.  For a similarity in [0, 1] and a percentage in [0, 100] the
  result is within 0.005 + 10^-12 of the exact \<open>0.6 * skill_match_pct + 40 * text_sim\<close>.
  On 0.5 and 50.0 it is 50.0.
\<close>

theorem combine_scores_weighted:
  "combine_scores s p
     = py_round (fmul (fadd (fmul (fl (6 / 10)) (fdiv p 100)) (fmul (fl (4 / 10)) s)) 100) 2
   \<and> (0 \<le> s \<and> s \<le> 1 \<and> 0 \<le> p \<and> p \<le> 100 \<longrightarrow>
        \<bar>combine_scores s p - (6 / 10 * p + 40 * s)\<bar> \<le> 1 / 200 + 1 / 10 ^ 12)
   \<and> combine_scores (1 / 2) 50 = 50"
proof -
  have a: "combine_scores s p
     = py_round (fmul (fadd (fmul (fl (6 / 10)) (fdiv p 100)) (fmul (fl (4 / 10)) s)) 100) 2"
    by (simp add: combine_scores_def Let_def)
  have b: "0 \<le> s \<and> s \<le> 1 \<and> 0 \<le> p \<and> p \<le> 100 \<longrightarrow>
        \<bar>combine_scores s p - (6 / 10 * p + 40 * s)\<bar> \<le> 1 / 200 + 1 / 10 ^ 12"
    using combine_scores_error by blast
  have c: "combine_scores (1 / 2) 50 = 50"
    by code_simp
  show ?thesis using a b c by blast
qed

theorem combine_scores_weighted_witness:
  "combine_scores (1 / 2) 50 = 50
   \<and> \<bar>combine_scores (1 / 2) 50 - (6 / 10 * 50 + 40 * (1 / 2))\<bar> \<le> 1 / 200 + 1 / 10 ^ 12"
proof -
  have h: "(0::rat) \<le> 1 / 2 \<and> (1 / 2 :: rat) \<le> 1 \<and> (0::rat) \<le> 50 \<and> (50::rat) \<le> 100"
    by simp
  show ?thesis
    using combine_scores_weighted [of "1 / 2" 50] h by blast
qed

text \<open>
  C2, as the specification writes the formula, fails on floats.  For the similarity
  0.000075 and the percentage 2.17 (one skill of 46 matched), \<open>combine_scores\<close> returns
  1.31, while \<open>round(100 * (0.6 * 2.17/100 + 0.4 * 0.000075), 2)\<close> is 1.3; and the exact
  \<open>0.6 * p + 40 * s\<close> of these two floats is below 1.305, so that its rounding to 2
  decimal places is 1.30 as well.
\<close>

theorem combine_formula_order_counterexample:
  "0 \<le> fl (75 / 1000000) \<and> fl (75 / 1000000) \<le> 1
   \<and> 0 \<le> fl (217 / 100) \<and> fl (217 / 100) \<le> 100
   \<and> combine_scores (fl (75 / 1000000)) (fl (217 / 100)) = fl (131 / 100)
   \<and> combine_spec (fl (75 / 1000000)) (fl (217 / 100)) = fl (130 / 100)
   \<and> combine_scores (fl (75 / 1000000)) (fl (217 / 100))
       \<noteq> combine_spec (fl (75 / 1000000)) (fl (217 / 100))
   \<and> 1295 / 1000 < 6 / 10 * fl (217 / 100) + 40 * fl (75 / 1000000)
   \<and> 6 / 10 * fl (217 / 100) + 40 * fl (75 / 1000000) < 1305 / 1000"
proof -
  have s: "0 \<le> fl (75 / 1000000)" "fl (75 / 1000000) \<le> 1"
    by code_simp+
  have p: "0 \<le> fl (217 / 100)" "fl (217 / 100) \<le> 100"
    by code_simp+
  have c: "combine_scores (fl (75 / 1000000)) (fl (217 / 100)) = fl (131 / 100)"
    by code_simp
  have d: "combine_spec (fl (75 / 1000000)) (fl (217 / 100)) = fl (130 / 100)"
    by code_simp
  have n: "fl (131 / 100) \<noteq> fl (130 / 100)"
    by code_simp
  have e: "1295 / 1000 < 6 / 10 * fl (217 / 100) + 40 * fl (75 / 1000000)"
    "6 / 10 * fl (217 / 100) + 40 * fl (75 / 1000000) < 1305 / 1000"
    by code_simp+
  show ?thesis using s p n e unfolding c d by blast
qed


end
